theory Spec2Isabelle
  imports Main "HOL-Library.Log_Nat"
begin

section \<open>JavaScript strings\<close>

text \<open>
  A JavaScript string is a sequence of UTF-16 code units, the numbers 0 to 65535. The
  regular expressions of the repository carry no \<^verbatim>\<open>u\<close> flag and so work on code
  units too. String literals of the source are ASCII and are written with \<open>js\<close>.
\<close>

type_synonym code_unit = int
type_synonym jsstring = "code_unit list"

definition js :: "string \<Rightarrow> jsstring" where
  "js s = map of_char s"

definition is_az :: "code_unit \<Rightarrow> bool" where
  \<comment> \<open>the character class \<^verbatim>\<open>[a-z]\<close>\<close>
  "is_az c = (97 \<le> c \<and> c \<le> 122)"

definition is_space :: "code_unit \<Rightarrow> bool" where
  \<comment> \<open>the character class \<^verbatim>\<open>\s\<close>: WhiteSpace and LineTerminator of ECMAScript\<close>
  "is_space c = (c \<in> {9, 10, 11, 12, 13, 32, 160, 5760, 8232, 8233, 8239, 8287, 12288, 65279}
                 \<or> (8192 \<le> c \<and> c \<le> 8202))"

text \<open>
  \<^verbatim>\<open>String.prototype.toLowerCase\<close>. The letters A-Z move to a-z. Two code points
  outside ASCII have a lower-case form that contains an ASCII letter: U+0130 becomes
  \<^verbatim>\<open>i\<close> followed by U+0307, and U+212A (Kelvin sign) becomes \<^verbatim>\<open>k\<close>. Every other
  code unit is kept as it is: its real lower-case form is again outside \<^verbatim>\<open>[a-z\s]\<close>,
  which is all that the normalizer can observe. On other letters outside ASCII the
  built-in differs from this function (it takes U+00C9 to U+00E9); the scorer, whose
  bucket keys are lower-case forms, is therefore written over a function \<open>lower\<close>, and
  its ranking is proved for every such function.
\<close>

definition lower_unit :: "code_unit \<Rightarrow> jsstring" where
  "lower_unit c = (if 65 \<le> c \<and> c \<le> 90 then [c + 32]
                   else if c = 304 then [105, 775]
                   else if c = 8490 then [107]
                   else [c])"

definition toLowerCase :: "jsstring \<Rightarrow> jsstring" where
  "toLowerCase s = concat (map lower_unit s)"

definition includes' :: "jsstring \<Rightarrow> code_unit \<Rightarrow> bool" where
  \<comment> \<open>\<^verbatim>\<open>s.includes(letter)\<close> for a search string of one code unit\<close>
  "includes' s letter = (letter \<in> set s)"

fun join :: "jsstring list \<Rightarrow> jsstring" where
  \<comment> \<open>\<^verbatim>\<open>words.join(" ")\<close>\<close>
  "join [] = []"
| "join [w] = w"
| "join (w # v # ws) = w @ 32 # join (v # ws)"

fun split_ws :: "jsstring \<Rightarrow> jsstring list" where
  \<comment> \<open>\<^verbatim>\<open>s.split(/\s+/)\<close>: the pieces between the maximal runs of white space\<close>
  "split_ws [] = [[]]"
| "split_ws (c # cs) =
     (if is_space c then (if cs \<noteq> [] \<and> is_space (hd cs) then split_ws cs else [] # split_ws cs)
      else (case split_ws cs of w # ws \<Rightarrow> (c # w) # ws | [] \<Rightarrow> [[c]]))"

fun split_space :: "jsstring \<Rightarrow> jsstring list" where
  \<comment> \<open>\<^verbatim>\<open>s.split(" ")\<close>: the pieces between single spaces\<close>
  "split_space [] = [[]]"
| "split_space (c # cs) =
     (if c = 32 then [] # split_space cs
      else (case split_space cs of w # ws \<Rightarrow> (c # w) # ws | [] \<Rightarrow> [[c]]))"

section \<open>JavaScript numbers\<close>

text \<open>
  A JavaScript number is an IEEE 754 binary64 value. The finite ones are rationals, and
  every arithmetic operation returns the exact result rounded to the nearest value with a
  53-bit significand, ties to the even significand: \<open>fl\<close>. The exponent range is not
  bounded here, so there is no overflow to Infinity and no underflow; NaN does not arise
  because every division of the source is guarded. Counts, results of \<^verbatim>\<open>Math.round\<close>
  and their sums are integers far below \<open>2 ^ 53\<close>, where binary64 is exact; they are
  \<open>nat\<close> and \<open>int\<close>.
\<close>

definition expo :: "rat \<Rightarrow> int" where
  \<comment> \<open>the binary exponent of a positive number: \<open>2 powi expo x \<le> x < 2 powi (expo x + 1)\<close>\<close>
  "expo x = (if 1 \<le> x then bitlen \<lfloor>x\<rfloor> - 1 else - bitlen (\<lceil>1 / x\<rceil> - 1))"

definition rne :: "rat \<Rightarrow> int" where
  \<comment> \<open>round to the nearest integer, ties to even\<close>
  "rne r = (let n = \<lfloor>r\<rfloor>; d = r - of_int n
            in if d < 1 / 2 then n else if 1 / 2 < d then n + 1
               else if even n then n else n + 1)"

definition fl :: "rat \<Rightarrow> rat" where
  "fl x = (if x = 0 then 0
           else let q = 2 powi (expo \<bar>x\<bar> - 52)
                in sgn x * of_int (rne (\<bar>x\<bar> / q)) * q)"

definition Math_round :: "rat \<Rightarrow> int" where
  \<comment> \<open>\<^verbatim>\<open>Math.round\<close>: the nearest integer, ties upwards\<close>
  "Math_round x = \<lfloor>x + 1 / 2\<rfloor>"

definition Math_floor :: "rat \<Rightarrow> int" where
  "Math_floor x = \<lfloor>x\<rfloor>"

text \<open>
  \<^verbatim>\<open>Math.random()\<close> returns a binary64 value in \<open>[0, 1)\<close>. The calls of one run are
  a sequence \<open>rnd 0, rnd 1, ...\<close>, and the functions that draw pass the number of the
  next call along.
\<close>

definition Math_random_value :: "rat \<Rightarrow> bool" where
  "Math_random_value u = (fl u = u \<and> 0 \<le> u \<and> u < 1)"

definition random_below :: "(nat \<Rightarrow> rat) \<Rightarrow> nat \<Rightarrow> nat \<Rightarrow> nat" where
  \<comment> \<open>\<^verbatim>\<open>Math.floor(Math.random() * n)\<close> at call number \<open>i\<close>\<close>
  "random_below rnd i n = nat (Math_floor (fl (rnd i * of_nat n)))"

section \<open>Text normalizer (generate-text route)\<close>

definition alphabetCoverageWords :: "code_unit \<Rightarrow> jsstring list option" where
  "alphabetCoverageWords = map_of
     [(of_char CHR ''q'', map js [''quick'', ''quiet'', ''queen'', ''quiz'', ''quote'']),
      (of_char CHR ''x'', map js [''box'', ''fox'', ''mix'', ''fix'', ''next'', ''text'', ''exam'']),
      (of_char CHR ''z'', map js [''zero'', ''zone'', ''size'', ''maze'', ''jazz'', ''fizz'', ''buzz'']),
      (of_char CHR ''j'', map js [''just'', ''jump'', ''join'', ''job'', ''joy'', ''major'']),
      (of_char CHR ''k'', map js [''keep'', ''know'', ''kind'', ''key'', ''kick'', ''make'', ''take'']),
      (of_char CHR ''v'', map js [''very'', ''have'', ''give'', ''live'', ''move'', ''over'', ''view'']),
      (of_char CHR ''w'', map js [''with'', ''will'', ''work'', ''want'', ''way'', ''new'', ''now''])]"

definition fallbackWords :: "jsstring list" where
  "fallbackWords = map js
     [''the'', ''and'', ''for'', ''are'', ''but'', ''not'', ''you'', ''all'', ''can'', ''had'',
      ''her'', ''was'', ''one'', ''our'', ''out'', ''day'', ''get'', ''has'', ''him'', ''his'',
      ''how'', ''its'', ''may'', ''new'', ''now'', ''old'', ''see'', ''way'', ''who'', ''boy'',
      ''did'', ''let'', ''put'', ''say'', ''she'', ''too'', ''use'', ''add'', ''ago'', ''air'',
      ''also'', ''ask'', ''back'', ''been'', ''best'', ''big'', ''both'', ''call'', ''came'',
      ''come'', ''could'', ''down'', ''each'', ''end'', ''even'', ''few'', ''find'', ''first'',
      ''from'', ''give'', ''good'', ''great'', ''hand'', ''have'', ''help'', ''here'', ''high'',
      ''home'', ''just'', ''keep'', ''kind'', ''know'', ''last'', ''left'', ''life'', ''like'',
      ''line'', ''live'', ''long'', ''look'', ''made'', ''make'', ''many'', ''more'', ''most'',
      ''much'', ''must'', ''name'', ''need'', ''next'', ''only'', ''open'', ''over'', ''own'']"

definition alphabet :: "code_unit list" where
  \<comment> \<open>\<^verbatim>\<open>"abcdefghijklmnopqrstuvwxyz".split("")\<close>\<close>
  "alphabet = js ''abcdefghijklmnopqrstuvwxyz''"

definition getMissingLetters :: "jsstring \<Rightarrow> code_unit list" where
  "getMissingLetters text =
     (let textLower = toLowerCase text
      in filter (\<lambda>letter. \<not> includes' textLower letter) alphabet)"

text \<open>
  An array element that was read out of range is \<^verbatim>\<open>undefined\<close>: the elements of the
  array that \<^verbatim>\<open>ensureAllLetters\<close> builds are \<open>Some w\<close> for a string and \<open>None\<close> for
  \<^verbatim>\<open>undefined\<close>. One round of the loop over the missing letters takes the array and the
  number of the next call of \<^verbatim>\<open>Math.random\<close>.
\<close>

definition place_fallback ::
  "(nat \<Rightarrow> rat) \<Rightarrow> jsstring option list \<times> nat \<Rightarrow> code_unit \<Rightarrow> jsstring option list \<times> nat" where
  "place_fallback rnd st letter =
     (case st of (result, i) \<Rightarrow>
        (case find (\<lambda>w. includes' w letter) fallbackWords of
           Some wordWithLetter \<Rightarrow>
             (let insertIndex = length result div 2 + random_below rnd i 10
              in (if insertIndex < length result
                  then result[insertIndex := Some wordWithLetter] else result, i + 1))
         | None \<Rightarrow> (result, i)))"

definition place_letter ::
  "(nat \<Rightarrow> rat) \<Rightarrow> jsstring option list \<times> nat \<Rightarrow> code_unit \<Rightarrow> jsstring option list \<times> nat" where
  "place_letter rnd st letter =
     (case st of (result, i) \<Rightarrow>
        (case alphabetCoverageWords letter of
           Some coverageWords \<Rightarrow>
             if length coverageWords > 0
             then (let insertIndex = length result div 2 + random_below rnd i 10;
                       pick = random_below rnd (i + 1) (length coverageWords);
                       wordToAdd = (if pick < length coverageWords
                                    then Some (coverageWords ! pick) else None)
                   in (if insertIndex < length result
                       then result[insertIndex := wordToAdd] else result @ [wordToAdd], i + 2))
             else place_fallback rnd st letter
         | None \<Rightarrow> place_fallback rnd st letter))"

definition ensureAllLetters :: "(nat \<Rightarrow> rat) \<Rightarrow> jsstring list \<Rightarrow> jsstring option list" where
  "ensureAllLetters rnd words =
     (let text = join words;
          missing = getMissingLetters text
      in if length missing = 0 then map Some words
         else take 90 (fst (foldl (place_letter rnd) (map Some words, 0) missing)))"

function pad :: "jsstring list \<Rightarrow> jsstring list" where
  \<comment> \<open>the \<^verbatim>\<open>while (words.length < 90)\<close> loop\<close>
  "pad words =
     (if length words < 90
      then pad (words @ [fallbackWords ! (length words mod length fallbackWords)])
      else words)"
  by pat_completeness auto
termination
  by (relation "measure (\<lambda>words. 90 - length words)") auto

declare pad.simps [simp del]

definition cleanAndPadWords :: "(nat \<Rightarrow> rat) \<Rightarrow> jsstring \<Rightarrow> jsstring option list" where
  "cleanAndPadWords rnd text =
     (let words = take 90 (filter (\<lambda>word. length word > 0 \<and> length word \<le> 10)
                    (split_ws (filter (\<lambda>c. is_az c \<or> is_space c) (toLowerCase text))))
      in ensureAllLetters rnd (pad words))"

definition text_of :: "jsstring option list \<Rightarrow> jsstring" where
  \<comment> \<open>\<^verbatim>\<open>words.join(" ")\<close> of the response; \<^verbatim>\<open>undefined\<close> joins as the empty string\<close>
  "text_of out = join (map (\<lambda>w. case w of Some s \<Rightarrow> s | None \<Rightarrow> []) out)"

definition matches_token :: "jsstring \<Rightarrow> bool" where
  \<comment> \<open>the pattern \<^verbatim>\<open>^[a-z]{1,10}$\<close>\<close>
  "matches_token w = (1 \<le> length w \<and> length w \<le> 10 \<and> list_all is_az w)"

section \<open>Objects used as dictionaries\<close>

text \<open>
  \<^verbatim>\<open>keyErrors\<close> and \<^verbatim>\<open>keyErrorMap\<close> are plain objects created by \<^verbatim>\<open>{}\<close>. Such an
  object is the list of its own properties in the order of their creation, and a read of
  a name that is not an own property goes on to \<^verbatim>\<open>Object.prototype\<close>, whose members
  are objects and so truthy. \<^verbatim>\<open>Object.entries\<close> lists the own properties whose names are
  array indices (canonical decimal numerals up to \<open>2 ^ 32 - 2\<close>) first, in ascending
  numeric order, and the others after them in the order of creation.
\<close>

type_synonym 'v js_object = "(jsstring \<times> 'v) list"

definition Object_prototype_names :: "jsstring list" where
  "Object_prototype_names = map js
     [''constructor'', ''__defineGetter__'', ''__defineSetter__'', ''hasOwnProperty'',
      ''__lookupGetter__'', ''__lookupSetter__'', ''isPrototypeOf'', ''propertyIsEnumerable'',
      ''toString'', ''valueOf'', ''__proto__'', ''toLocaleString'']"

definition inherited :: "jsstring \<Rightarrow> bool" where
  "inherited name = (name \<in> set Object_prototype_names)"

fun put :: "'v js_object \<Rightarrow> jsstring \<Rightarrow> 'v \<Rightarrow> 'v js_object" where
  \<comment> \<open>\<^verbatim>\<open>obj[name] = v\<close>: in place for an own property, a new one at the end otherwise\<close>
  "put [] name v = [(name, v)]"
| "put (p # ps) name v = (if fst p = name then (name, v) # ps else p # put ps name v)"

definition numeric_value :: "jsstring \<Rightarrow> int" where
  "numeric_value name = foldl (\<lambda>n c. 10 * n + (c - 48)) 0 name"

definition array_index :: "jsstring \<Rightarrow> int option" where
  "array_index name =
     (if name \<noteq> [] \<and> list_all (\<lambda>c. 48 \<le> c \<and> c \<le> 57) name
         \<and> (length name = 1 \<or> hd name \<noteq> 48) \<and> numeric_value name \<le> 4294967294
      then Some (numeric_value name) else None)"

definition Object_entries :: "'v js_object \<Rightarrow> (jsstring \<times> 'v) list" where
  "Object_entries obj =
     sort_key (\<lambda>p. case array_index (fst p) of Some n \<Rightarrow> n | None \<Rightarrow> 0)
       (filter (\<lambda>p. array_index (fst p) \<noteq> None) obj)
     @ filter (\<lambda>p. array_index (fst p) = None) obj"

section \<open>Shared types (lib/types.ts)\<close>

record Keystroke =
  char :: jsstring
  expected :: jsstring
  timestamp :: rat
  key :: jsstring
  isCorrect :: bool
  wordIndex :: int
  charIndex :: int

text \<open>
  The elements of \<^verbatim>\<open>strugglingKeys\<close>: \<^verbatim>\<open>{ key, errorCount }\<close> in the performance data
  and \<^verbatim>\<open>{ key, errorCount, avgDelay }\<close> in a session result.
\<close>

record KeyCount =
  key :: jsstring
  errorCount :: nat

record StrugglingKey = KeyCount +
  avgDelay :: int

record SessionResult =
  wpm :: int
  accuracy :: int
  strugglingKeys :: "StrugglingKey list"
  totalKeystrokes :: nat
  correctKeystrokes :: nat
  timeElapsed :: rat
  completedWords :: nat
  totalWords :: nat

record AnalysisResult = SessionResult +
  aiInsights :: jsstring

record Challenge =
  id' :: jsstring
  "text" :: jsstring
  keystrokes :: "Keystroke list"
  result :: "SessionResult option"
  startTime :: "rat option"
  endTime :: "rat option"

datatype error =
    TypeError         \<comment> \<open>thrown by a method call on \<^verbatim>\<open>undefined\<close>\<close>
  | AnalysisFailed    \<comment> \<open>the response with status 500 of the analyze-session route\<close>
  | NonNumericCount   \<comment> \<open>an error count has become a string; not followed further\<close>

section \<open>Session scorer (analyze-session route)\<close>

definition Backspace :: jsstring where
  "Backspace = js ''Backspace''"

record KeyErrors =
  errors :: nat
  delays :: "rat list"

definition record_error :: "Keystroke option \<Rightarrow> Keystroke \<Rightarrow> KeyErrors \<Rightarrow> KeyErrors" where
  \<comment> \<open>\<^verbatim>\<open>errors++\<close>, and the delay from the previous keystroke when there is one\<close>
  "record_error prev k entry =
     entry\<lparr>errors := errors entry + 1,
           delays := (case prev of
                        None \<Rightarrow> delays entry
                      | Some p \<Rightarrow> delays entry @ [fl (timestamp k - timestamp p)])\<rparr>"

text \<open>
  \<^verbatim>\<open>String.prototype.toLowerCase\<close> is a built-in of the runtime. The loop and the handler
  are written over a function \<open>lower\<close> that stands for it, so that what is proved for
  every \<open>lower\<close> holds of the built-in itself, on every string.

  The loop over the keystrokes; \<open>prev\<close> is \<^verbatim>\<open>keystrokes[i - 1]\<close>, \<open>None\<close> when
  \<^verbatim>\<open>i\<close> is 0. For a name that the fresh object inherits, \<^verbatim>\<open>!keyErrors[key]\<close> is false:
  no own property is created, \<^verbatim>\<open>errors++\<close> lands on the inherited object, and the call
  \<^verbatim>\<open>keyErrors[key].delays.push\<close> throws since that object has no \<^verbatim>\<open>delays\<close>.
\<close>

fun scan_keystrokes ::
  "(jsstring \<Rightarrow> jsstring) \<Rightarrow> Keystroke option \<Rightarrow> KeyErrors js_object \<Rightarrow> Keystroke list
     \<Rightarrow> error + KeyErrors js_object" where
  "scan_keystrokes lower prev keyErrors [] = Inr keyErrors"
| "scan_keystrokes lower prev keyErrors (k # ks) =
     (if \<not> isCorrect k \<and> Keystroke.key k \<noteq> Backspace
      then (let key = lower (expected k)
            in case map_of keyErrors key of
                 Some entry \<Rightarrow>
                   scan_keystrokes lower (Some k) (put keyErrors key (record_error prev k entry)) ks
               | None \<Rightarrow>
                   if inherited key
                   then (case prev of
                           None \<Rightarrow> scan_keystrokes lower (Some k) keyErrors ks
                         | Some p \<Rightarrow> Inl TypeError)
                   else scan_keystrokes lower (Some k)
                          (put keyErrors key (record_error prev k \<lparr>errors = 0, delays = []\<rparr>)) ks)
      else scan_keystrokes lower (Some k) keyErrors ks)"

definition average_delay :: "rat list \<Rightarrow> int" where
  "average_delay ds =
     (if length ds > 0
      then Math_round (fl (foldl (\<lambda>a b. fl (a + b)) 0 ds / of_nat (length ds)))
      else 0)"

text \<open>
  \<^verbatim>\<open>Array.prototype.sort\<close> is stable, and the comparator
  \<^verbatim>\<open>(a, b) => b.errorCount - a.errorCount\<close> orders by decreasing error count: the
  stable insertion sort \<open>sort_key\<close> on the negated count.
\<close>

definition by_errorCount :: "'a KeyCount_scheme list \<Rightarrow> 'a KeyCount_scheme list" where
  "by_errorCount xs = sort_key (\<lambda>s. - int (errorCount s)) xs"

text \<open>
  The route handler. \<open>insights\<close> is the outcome of the call of \<^verbatim>\<open>generateText\<close>:
  its text, or \<open>None\<close> when the call throws. The body of the request arrives
  destructured; its field \<^verbatim>\<open>text\<close> is not read.
\<close>

definition POST_analyze_session_with ::
  "(jsstring \<Rightarrow> jsstring) \<Rightarrow> jsstring option \<Rightarrow> Keystroke list \<Rightarrow> rat \<Rightarrow> nat \<Rightarrow> nat
     \<Rightarrow> error + AnalysisResult" where
  "POST_analyze_session_with = (\<lambda>lower insights keystrokes timeElapsed completedWords totalWords.
      let totalKeystrokes = length keystrokes;
          correctKeystrokes = length (filter isCorrect keystrokes);
          accuracy = (if totalKeystrokes > 0
                      then Math_round (fl (fl (of_nat correctKeystrokes / of_nat totalKeystrokes) * 100))
                      else 0);
          timeInMinutes = fl (timeElapsed / 60);
          charactersTyped = length (filter (\<lambda>k. Keystroke.key k \<noteq> Backspace) keystrokes);
          wpm = (if timeInMinutes > 0
                 then Math_round (fl (fl (of_nat charactersTyped / 5) / timeInMinutes))
                 else 0)
      in case scan_keystrokes lower None [] keystrokes of
           Inl e \<Rightarrow> Inl AnalysisFailed
         | Inr keyErrors \<Rightarrow>
             (let strugglingKeys = take 5 (by_errorCount
                    (map (\<lambda>(key, data). \<lparr>key = key, errorCount = errors data,
                                           avgDelay = average_delay (delays data)\<rparr>)
                         (Object_entries keyErrors)));
                  aiInsights = (case insights of
                      Some t \<Rightarrow> t
                    | None \<Rightarrow>
                        if accuracy \<ge> 95
                        then js ''Excellent accuracy! Try increasing your speed gradually.''
                        else js ''Focus on accuracy first, speed will follow with practice.'')
              in Inr \<lparr>wpm = wpm, accuracy = accuracy, strugglingKeys = strugglingKeys,
                      totalKeystrokes = totalKeystrokes, correctKeystrokes = correctKeystrokes,
                      timeElapsed = timeElapsed, completedWords = completedWords,
                      totalWords = totalWords, aiInsights = aiInsights\<rparr>))"

text \<open>The handler with the lower-casing of this development in the place of the built-in.\<close>

definition POST_analyze_session ::
  "jsstring option \<Rightarrow> Keystroke list \<Rightarrow> rat \<Rightarrow> nat \<Rightarrow> nat \<Rightarrow> error + AnalysisResult" where
  "POST_analyze_session = POST_analyze_session_with toLowerCase"

section \<open>Performance aggregator and text acquisition (page component)\<close>

text \<open>
  \<^verbatim>\<open>keyErrorMap[sk.key] = (keyErrorMap[sk.key] || 0) + sk.errorCount\<close>. For a name that
  the fresh object inherits, the left operand of \<^verbatim>\<open>+\<close> is an object and the sum is a
  string (for \<^verbatim>\<open>__proto__\<close> the assignment is then ignored): the histogram stops being
  numeric, and the model stops there with \<open>NonNumericCount\<close>.
\<close>

fun merge_keys :: "nat js_object \<Rightarrow> StrugglingKey list \<Rightarrow> error + nat js_object" where
  "merge_keys keyErrorMap [] = Inr keyErrorMap"
| "merge_keys keyErrorMap (sk # sks) =
     (case map_of keyErrorMap (KeyCount.key sk) of
        Some n \<Rightarrow> merge_keys (put keyErrorMap (KeyCount.key sk) (n + errorCount sk)) sks
      | None \<Rightarrow>
          if inherited (KeyCount.key sk) then Inl NonNumericCount
          else merge_keys (put keyErrorMap (KeyCount.key sk) (0 + errorCount sk)) sks)"

definition mistyped :: "Keystroke list \<Rightarrow> jsstring list" where
  \<comment> \<open>what the loop over \<^verbatim>\<open>challenge.keystrokes\<close> pushes onto \<^verbatim>\<open>recentErrors\<close>\<close>
  "mistyped ks =
     map expected (filter (\<lambda>ks. \<not> isCorrect ks \<and> expected ks \<noteq> [] \<and> Keystroke.key ks \<noteq> Backspace) ks)"

text \<open>
  The loop over the challenges, on the five variables \<^verbatim>\<open>keyErrorMap\<close>,
  \<^verbatim>\<open>recentErrors\<close>, \<^verbatim>\<open>totalAccuracy\<close>, \<^verbatim>\<open>totalWpm\<close> and \<^verbatim>\<open>sessionCount\<close>.
\<close>

fun scan_challenges ::
  "nat js_object \<times> jsstring list \<times> int \<times> int \<times> nat \<Rightarrow> Challenge list
     \<Rightarrow> error + nat js_object \<times> jsstring list \<times> int \<times> int \<times> nat" where
  "scan_challenges st [] = Inr st"
| "scan_challenges (keyErrorMap, recentErrors, totalAccuracy, totalWpm, sessionCount) (challenge # rest) =
     (case result challenge of
        None \<Rightarrow>
          scan_challenges (keyErrorMap, recentErrors, totalAccuracy, totalWpm, sessionCount) rest
      | Some r \<Rightarrow>
          (case merge_keys keyErrorMap (SessionResult.strugglingKeys r) of
             Inl e \<Rightarrow> Inl e
           | Inr keyErrorMap' \<Rightarrow>
               scan_challenges
                 (keyErrorMap', recentErrors @ mistyped (keystrokes challenge),
                  totalAccuracy + SessionResult.accuracy r, totalWpm + SessionResult.wpm r,
                  sessionCount + 1) rest))"

record PerformanceData =
  strugglingKeys :: "KeyCount list"
  accuracy :: int
  wpm :: int
  recentErrors :: "jsstring list"

definition aggregatedPerformance :: "Challenge list \<Rightarrow> error + PerformanceData option" where
  "aggregatedPerformance challenges =
     (if length challenges = 0 then Inr None
      else case scan_challenges ([], [], 0, 0, 0) challenges of
             Inl e \<Rightarrow> Inl e
           | Inr totals \<Rightarrow>
               let (keyErrorMap, recentErrors, totalAccuracy, totalWpm, sessionCount) = totals
               in if sessionCount = 0 then Inr None
               else Inr (Some
                 \<lparr>strugglingKeys = take 8 (by_errorCount
                     (map (\<lambda>(key, errorCount). \<lparr>key = key, errorCount = errorCount\<rparr>)
                          (Object_entries keyErrorMap))),
                  accuracy = Math_round (fl (of_int totalAccuracy / of_nat sessionCount)),
                  wpm = Math_round (fl (of_int totalWpm / of_nat sessionCount)),
                  recentErrors = drop (length recentErrors - 50) recentErrors\<rparr>))"

definition store_challenge :: "Challenge \<Rightarrow> Challenge list \<Rightarrow> Challenge list" where
  \<comment> \<open>\<^verbatim>\<open>setChallenges((prev) => [newChallenge, ...prev])\<close> in \<^verbatim>\<open>handleComplete\<close>\<close>
  "store_challenge newChallenge prev = newChallenge # prev"

record PreloadedText =
  "text" :: jsstring
  isPersonalized :: bool
  targetKeys :: "jsstring list"

definition fetchText :: "PreloadedText option \<Rightarrow> PreloadedText" where
  \<comment> \<open>\<open>response\<close> is what the request to the generate-text route gave, \<open>None\<close> when it failed\<close>
  "fetchText response =
     (case response of
        Some data \<Rightarrow> data
      | None \<Rightarrow>
          \<lparr>text = js (''the quick brown fox jumps over the lazy dog and runs into the forest ''
                      @ ''where animals live in peace under tall trees that give shade from the ''
                      @ ''hot sun while birds sing their songs high above in branches where ''
                      @ ''they build nests to raise young ones who will soon fly and explore ''
                      @ ''the world''),
           isPersonalized = False, targetKeys = []\<rparr>)"

section \<open>Invariants and specifications\<close>

definition slots_ok :: "jsstring option list \<Rightarrow> bool" where
  \<comment> \<open>the invariant of the loop of \<^verbatim>\<open>ensureAllLetters\<close>\<close>
  "slots_ok slots =
     (90 \<le> length slots \<and> (\<forall>t \<in> set slots. \<exists>w. t = Some w \<and> matches_token w))"

text \<open>
  The words of the claims about the struggling keys: the keystrokes that are incorrect
  and not a delete action, the bucket of a keystroke, the order in which values are first
  seen in a list, and the order in which \<^verbatim>\<open>Object.entries\<close> lists properties that were
  created in a given order.
\<close>

definition contributing :: "Keystroke list \<Rightarrow> Keystroke list" where
  "contributing ks = filter (\<lambda>k. \<not> isCorrect k \<and> Keystroke.key k \<noteq> Backspace) ks"

definition bucket_of :: "Keystroke \<Rightarrow> jsstring" where
  "bucket_of k = toLowerCase (expected k)"

definition buckets :: "Keystroke list \<Rightarrow> jsstring list" where
  \<comment> \<open>the bucket of each contributing keystroke; an inherited name gets no bucket\<close>
  "buckets ks = filter (\<lambda>name. \<not> inherited name) (map bucket_of (contributing ks))"

definition bucket_with :: "(jsstring \<Rightarrow> jsstring) \<Rightarrow> Keystroke \<Rightarrow> jsstring" where
  \<comment> \<open>the bucket of a keystroke under any lower-casing function\<close>
  "bucket_with lower k = lower (expected k)"

definition buckets_with :: "(jsstring \<Rightarrow> jsstring) \<Rightarrow> Keystroke list \<Rightarrow> jsstring list" where
  "buckets_with lower ks =
     filter (\<lambda>name. \<not> inherited name) (map (bucket_with lower) (contributing ks))"

fun first_seen :: "'a list \<Rightarrow> 'a list" where
  "first_seen [] = []"
| "first_seen (x # xs) = x # removeAll x (first_seen xs)"

definition enumeration :: "jsstring list \<Rightarrow> jsstring list" where
  "enumeration names =
     sort_key (\<lambda>name. case array_index name of Some n \<Rightarrow> n | None \<Rightarrow> 0)
       (filter (\<lambda>name. array_index name \<noteq> None) names)
     @ filter (\<lambda>name. array_index name = None) names"

definition errors_of :: "KeyErrors js_object \<Rightarrow> jsstring \<Rightarrow> nat" where
  "errors_of keyErrors name = (case map_of keyErrors name of Some entry \<Rightarrow> errors entry | None \<Rightarrow> 0)"

text \<open>
  The words of the claims about the aggregator: the results of the challenges that have
  one, in the order of the list, and all their struggling-key entries.
\<close>

fun scored :: "Challenge list \<Rightarrow> SessionResult list" where
  "scored [] = []"
| "scored (c # cs) = (case result c of None \<Rightarrow> scored cs | Some r \<Rightarrow> r # scored cs)"

definition merged_entries :: "Challenge list \<Rightarrow> StrugglingKey list" where
  "merged_entries cs = concat (map SessionResult.strugglingKeys (scored cs))"

definition total_of :: "nat js_object \<Rightarrow> jsstring \<Rightarrow> nat" where
  "total_of keyErrorMap name = (case map_of keyErrorMap name of Some n \<Rightarrow> n | None \<Rightarrow> 0)"

section \<open>Properties of the rounding\<close>

lemma pow2_less_imp:
  assumes "(2::rat) powi a < 2 powi b"
  shows "a < b"
proof (rule ccontr)
  assume "\<not> a < b"
  then have "b \<le> a" by simp
  then have "(2::rat) powi b \<le> 2 powi a" by (rule power_int_increasing) simp
  with assms show False by simp
qed

lemma expo_bounds:
  assumes "0 < x"
  shows "2 powi (expo x) \<le> x \<and> x < 2 powi (expo x + 1)"
proof (cases "1 \<le> x")
  case True
  define n where "n = \<lfloor>x\<rfloor>"
  have n1: "1 \<le> n" using True by (simp add: n_def le_floor_iff)
  have bl: "1 \<le> bitlen n" using n1 bitlen_eq_zero_iff [of n] bitlen_nonneg [of n] by linarith
  from bitlen_bounds [of n] n1
  have lo: "2 ^ nat (bitlen n - 1) \<le> n" and hi: "n < 2 ^ nat (bitlen n)" by auto
  have e: "expo x = bitlen n - 1" using True by (simp add: expo_def n_def)
  have "(2::rat) powi (bitlen n - 1) = of_int (2 ^ nat (bitlen n - 1))"
    using bl by (simp add: power_int_def)
  also have "\<dots> \<le> of_int n" using lo by (simp only: of_int_le_iff)
  also have "\<dots> \<le> x" by (simp add: n_def)
  finally have A: "2 powi (expo x) \<le> x" by (simp add: e)
  have "x < of_int (n + 1)" unfolding n_def by linarith
  also have "\<dots> \<le> of_int (2 ^ nat (bitlen n))" using hi by (simp only: of_int_le_iff)
  also have "\<dots> = (2::rat) powi (bitlen n)" using bl by (simp add: power_int_def)
  finally have B: "x < 2 powi (expo x + 1)" by (simp add: e)
  from A B show ?thesis ..
next
  case False
  define y where "y = 1 / x"
  define m where "m = \<lceil>y\<rceil>"
  define k where "k = bitlen (m - 1)"
  have y1: "1 < y" using False assms by (simp add: y_def)
  have "1 < m" using y1 by (simp add: m_def less_ceiling_iff)
  then have m2: "2 \<le> m" by simp
  from bitlen_bounds [of "m - 1"] m2
  have lo: "2 ^ nat (k - 1) \<le> m - 1" and hi: "m - 1 < 2 ^ nat k" by (auto simp: k_def)
  have k1: "1 \<le> k" using m2 bitlen_eq_zero_iff [of "m - 1"] bitlen_nonneg [of "m - 1"] unfolding k_def by linarith
  have e: "expo x = - k" using False by (simp add: expo_def k_def m_def y_def)
  have ym: "y \<le> of_int m" and my: "of_int (m - 1) < y" unfolding m_def by linarith+
  have "y \<le> of_int m" by fact
  also have "\<dots> \<le> of_int (2 ^ nat k)" using hi by (simp only: of_int_le_iff)
  finally have "y \<le> 2 ^ nat k" by simp
  then have "1 / 2 ^ nat k \<le> 1 / y" using y1 by (simp add: frac_le)
  then have A: "2 powi (expo x) \<le> x" using k1 assms
    by (simp add: e power_int_def y_def field_simps)
  have "(2::rat) ^ nat (k - 1) = of_int (2 ^ nat (k - 1))" by simp
  also have "\<dots> \<le> of_int (m - 1)" using lo by (simp only: of_int_le_iff)
  also have "\<dots> < y" by fact
  finally have "2 ^ nat (k - 1) < y" .
  then have "1 / y < 1 / 2 ^ nat (k - 1)" by (simp add: frac_less2)
  moreover have "(2::rat) powi (- k + 1) = 1 / 2 ^ nat (k - 1)"
    using k1 by (cases "k = 1") (simp_all add: power_int_def field_simps)
  ultimately have B: "x < 2 powi (expo x + 1)" using assms by (simp add: e y_def)
  from A B show ?thesis ..
qed

lemma expo_unique:
  assumes "2 powi e \<le> x" "x < 2 powi (e + 1)"
  shows "expo x = e"
proof -
  have "(0::rat) < 2 powi e" by simp
  then have pos: "0 < x" using assms(1) by linarith
  from expo_bounds [OF pos] have a: "2 powi (expo x) \<le> x" and b: "x < 2 powi (expo x + 1)" by auto
  have "(2::rat) powi e < 2 powi (expo x + 1)" using assms(1) b by linarith
  then have "e < expo x + 1" by (rule pow2_less_imp)
  moreover have "(2::rat) powi (expo x) < 2 powi (e + 1)" using assms(2) a by linarith
  then have "expo x < e + 1" by (rule pow2_less_imp)
  ultimately show ?thesis by simp
qed

lemma expo_mono:
  assumes "0 < x" "x \<le> y"
  shows "expo x \<le> expo y"
proof -
  have "0 < y" using assms by simp
  from expo_bounds [OF assms(1)] expo_bounds [OF this] assms(2)
  have "(2::rat) powi (expo x) < 2 powi (expo y + 1)" by linarith
  then have "expo x < expo y + 1" by (rule pow2_less_imp)
  then show ?thesis by simp
qed

lemma rne_range: "\<lfloor>r\<rfloor> \<le> rne r \<and> rne r \<le> \<lfloor>r\<rfloor> + 1"
  by (simp add: rne_def Let_def)

lemma rne_of_int [simp]: "rne (of_int n) = n"
  by (simp add: rne_def)

lemma rne_mono:
  assumes "r \<le> s"
  shows "rne r \<le> rne s"
proof (cases "\<lfloor>r\<rfloor> = \<lfloor>s\<rfloor>")
  case True
  then show ?thesis using assms by (auto simp: rne_def Let_def)
next
  case False
  then have "\<lfloor>r\<rfloor> + 1 \<le> \<lfloor>s\<rfloor>" using floor_mono [OF assms] by linarith
  then show ?thesis using rne_range [of r] rne_range [of s] by linarith
qed

lemma fl_pos:
  assumes "0 < x"
  shows "fl x = of_int (rne (x / 2 powi (expo x - 52))) * 2 powi (expo x - 52)"
  using assms by (simp add: fl_def Let_def)

lemma scaled_range:
  assumes "0 < x"
  shows "2 ^ 52 \<le> x / 2 powi (expo x - 52) \<and> x / 2 powi (expo x - 52) < 2 ^ 53"
proof -
  define c :: rat where "c = 2 ^ 52"
  define r where "r = x / 2 powi (expo x)"
  have c: "0 < c" by (simp add: c_def)
  have q: "x / 2 powi (expo x - 52) = r * c"
    by (simp add: power_int_diff c_def r_def)
  have p: "(0::rat) < 2 powi (expo x)" by simp
  have s: "(2::rat) powi (expo x + 1) = 2 * 2 powi (expo x)"
    by (simp add: power_int_add)
  from expo_bounds [OF assms] have "1 \<le> r" "r < 2"
    using p by (simp_all add: s r_def pos_le_divide_eq pos_divide_less_eq)
  then have "1 * c \<le> r * c" "r * c < 2 * c"
    using c by (simp_all only: mult_le_cancel_right mult_less_cancel_right) simp_all
  moreover have "2 * c = 2 ^ 53" by (simp add: c_def)
  ultimately show ?thesis by (simp add: q c_def)
qed

lemma fl_pos_bounds:
  assumes "0 < x"
  shows "2 powi (expo x) \<le> fl x \<and> fl x \<le> 2 powi (expo x + 1)"
proof -
  let ?q = "(2::rat) powi (expo x - 52)"
  let ?k = "rne (x / ?q)"
  from scaled_range [OF assms]
  have lo: "of_int (2 ^ 52) \<le> x / ?q" and hi: "x / ?q \<le> of_int (2 ^ 53)" by simp_all
  have "rne (of_int (2 ^ 52)) \<le> ?k" using lo by (rule rne_mono)
  then have klo: "(2::rat) ^ 52 \<le> of_int ?k" by (simp only: rne_of_int) (metis of_int_le_iff of_int_numeral of_int_power)
  have "?k \<le> rne (of_int (2 ^ 53))" using hi by (rule rne_mono)
  then have khi: "of_int ?k \<le> (2::rat) ^ 53" by (simp only: rne_of_int) (metis of_int_le_iff of_int_numeral of_int_power)
  have q: "?q = 2 powi (expo x) / 2 ^ 52" by (simp add: power_int_diff)
  have p: "(0::rat) < 2 powi (expo x)" by simp
  have s: "(2::rat) powi (expo x + 1) = 2 * 2 powi (expo x)" by (simp add: power_int_add)
  have "2 powi (expo x) = 2 ^ 52 * ?q" by (simp add: q)
  also have "\<dots> \<le> of_int ?k * ?q" using klo by (intro mult_right_mono) simp_all
  finally have A: "2 powi (expo x) \<le> fl x" by (simp only: fl_pos [OF assms])
  have "of_int ?k * ?q \<le> 2 ^ 53 * ?q" using khi by (intro mult_right_mono) simp_all
  also have "\<dots> = 2 powi (expo x + 1)" by (simp add: q s)
  finally have B: "fl x \<le> 2 powi (expo x + 1)" by (simp only: fl_pos [OF assms])
  from A B show ?thesis ..
qed

lemma fl_mono_pos:
  assumes "0 < x" "x \<le> y"
  shows "fl x \<le> fl y"
proof -
  have ypos: "0 < y" using assms by simp
  have le: "expo x \<le> expo y" using assms by (rule expo_mono)
  show ?thesis
  proof (cases "expo x = expo y")
    case True
    let ?q = "(2::rat) powi (expo y - 52)"
    have "x / ?q \<le> y / ?q" using assms(2) by (simp add: divide_right_mono)
    then have "rne (x / ?q) \<le> rne (y / ?q)" by (rule rne_mono)
    then have "of_int (rne (x / ?q)) * ?q \<le> of_int (rne (y / ?q)) * ?q"
      by (intro mult_right_mono) simp_all
    then show ?thesis by (simp only: fl_pos [OF assms(1)] fl_pos [OF ypos] True)
  next
    case False
    then have "expo x + 1 \<le> expo y" using le by simp
    then have "(2::rat) powi (expo x + 1) \<le> 2 powi (expo y)"
      by (rule power_int_increasing) simp
    then show ?thesis using fl_pos_bounds [OF assms(1)] fl_pos_bounds [OF ypos] by linarith
  qed
qed

lemma fl_zero [simp]: "fl 0 = 0"
  by (simp add: fl_def)

lemma fl_nonneg:
  assumes "0 \<le> x"
  shows "0 \<le> fl x"
proof (cases "x = 0")
  case True
  then show ?thesis by simp
next
  case False
  then have pos: "0 < x" using assms by simp
  have "(0::rat) < 2 powi (expo x)" by simp
  then show ?thesis using fl_pos_bounds [OF pos] by linarith
qed

lemma fl_mono_nonneg:
  assumes "0 \<le> x" "x \<le> y"
  shows "fl x \<le> fl y"
proof (cases "x = 0")
  case True
  then show ?thesis using fl_nonneg [of y] assms by simp
next
  case False
  then show ?thesis using assms fl_mono_pos [of x y] by simp
qed

lemma fl_minus: "fl (- x) = - fl x"
  by (simp add: fl_def Let_def sgn_minus)

lemma double_below_one:
  assumes "fl u = u" "0 \<le> u" "u < 1"
  shows "u \<le> 1 - 1 / 2 ^ 53"
proof (cases "u < 1 / 2")
  case True
  then show ?thesis by simp
next
  case False
  then have pos: "0 < u" and half: "1 / 2 \<le> u" by simp_all
  have e: "expo u = - 1"
    by (rule expo_unique) (use half assms(3) in \<open>simp_all add: power_int_minus\<close>)
  define k where "k = rne (u / 2 powi (- 53))"
  have u: "u = of_int k / 2 ^ 53"
    using assms(1) by (simp add: fl_pos [OF pos] e k_def power_int_minus field_simps)
  then have "of_int k < (2::rat) ^ 53" using assms(3) by simp
  then have "k < 2 ^ 53" by (metis of_int_less_iff of_int_numeral of_int_power)
  then have "k \<le> 2 ^ 53 - 1" by simp
  then have "(of_int k :: rat) \<le> of_int (2 ^ 53 - 1)" by (simp only: of_int_le_iff)
  then have "(of_int k :: rat) \<le> 2 ^ 53 - 1" by simp
  then show ?thesis unfolding u by (simp add: field_simps)
qed

lemma fl_one: "fl 1 = 1"
  by code_simp

lemma fl_hundred: "fl 100 = 100"
  by code_simp

lemma Math_round_mono: "x \<le> y \<Longrightarrow> Math_round x \<le> Math_round y"
  by (simp add: Math_round_def floor_mono)

lemma Math_round_of_int [simp]: "Math_round (of_int n) = n"
  by (simp add: Math_round_def) linarith

lemma Math_round_zero [simp]: "Math_round 0 = 0"
  using Math_round_of_int [of 0] by simp

lemma Math_round_numeral [simp]: "Math_round (numeral n) = numeral n"
  using Math_round_of_int [of "numeral n"] by simp

lemma fl_twelve: "fl 12 = 12"
  by code_simp

lemma percent_range:
  assumes "c \<le> t" "0 < t"
  shows "0 \<le> Math_round (fl (fl (of_nat c / of_nat t) * 100))
         \<and> Math_round (fl (fl (of_nat c / of_nat t) * 100)) \<le> 100"
proof -
  let ?q = "fl (of_nat c / of_nat t)"
  have r: "(0::rat) \<le> of_nat c / of_nat t" "(of_nat c :: rat) / of_nat t \<le> 1"
    using assms by simp_all
  have q0: "0 \<le> ?q" using r(1) by (rule fl_nonneg)
  have q1: "?q \<le> 1" using fl_mono_nonneg [OF r] by (simp add: fl_one)
  have p0: "0 \<le> ?q * 100" using q0 by simp
  have p1: "?q * 100 \<le> 100" using q1 by simp
  have "0 \<le> fl (?q * 100)" using p0 by (rule fl_nonneg)
  then have "Math_round 0 \<le> Math_round (fl (?q * 100))" by (rule Math_round_mono)
  moreover have "fl (?q * 100) \<le> 100" using fl_mono_nonneg [OF p0 p1] by (simp add: fl_hundred)
  then have "Math_round (fl (?q * 100)) \<le> Math_round 100" by (rule Math_round_mono)
  ultimately show ?thesis by simp
qed

section \<open>Session scorer: speed and accuracy\<close>

lemma POST_analyze_session_Inr:
  assumes "POST_analyze_session insights ks t cw tw = Inr r"
  shows "totalKeystrokes r = length ks"
    and "correctKeystrokes r = length (filter isCorrect ks)"
    and "SessionResult.accuracy r =
           (if length ks > 0
            then Math_round (fl (fl (of_nat (length (filter isCorrect ks)) / of_nat (length ks)) * 100))
            else 0)"
    and "SessionResult.wpm r =
           (if fl (t / 60) > 0
            then Math_round (fl (fl (of_nat (length (filter (\<lambda>k. Keystroke.key k \<noteq> Backspace) ks)) / 5)
                                   / fl (t / 60)))
            else 0)"
  using assms
  by (auto simp: POST_analyze_session_def POST_analyze_session_with_def Let_def split: sum.splits)

text \<open>
  C3. Whenever the scorer returns a result, the correct keystrokes are at most the total,
  the accuracy lies between 0 and 100, and it is \<^verbatim>\<open>Math.round((correct / total) * 100)\<close>
  in the arithmetic of JavaScript when there is a keystroke, else 0.
\<close>

theorem accuracy_is_rounded_percentage:
  assumes "POST_analyze_session insights ks t cw tw = Inr r"
  shows "correctKeystrokes r \<le> totalKeystrokes r
         \<and> 0 \<le> SessionResult.accuracy r \<and> SessionResult.accuracy r \<le> 100
         \<and> totalKeystrokes r = length ks
         \<and> correctKeystrokes r = length (filter isCorrect ks)
         \<and> SessionResult.accuracy r =
             (if totalKeystrokes r > 0
              then Math_round (fl (fl (of_nat (correctKeystrokes r) / of_nat (totalKeystrokes r)) * 100))
              else 0)"
proof -
  note f = POST_analyze_session_Inr [OF assms]
  have le: "length (filter isCorrect ks) \<le> length ks" by simp
  have "0 \<le> SessionResult.accuracy r \<and> SessionResult.accuracy r \<le> 100"
  proof (cases "length ks > 0")
    case True
    then show ?thesis using percent_range [OF le True] by (simp add: f(3))
  next
    case False
    then show ?thesis by (simp add: f(3))
  qed
  then show ?thesis by (simp add: f(1,2,3))
qed

theorem accuracy_is_rounded_percentage_witness:
  "POST_analyze_session (Some (js ''Keep going.''))
     [\<lparr>char = js ''t'', expected = js ''t'', timestamp = 0, key = js ''t'', isCorrect = True,
       wordIndex = 0, charIndex = 0\<rparr>,
      \<lparr>char = js ''h'', expected = js ''e'', timestamp = 400, key = js ''h'', isCorrect = False,
       wordIndex = 0, charIndex = 1\<rparr>,
      \<lparr>char = js ''e'', expected = js ''e'', timestamp = 1000, key = js ''e'', isCorrect = True,
       wordIndex = 0, charIndex = 1\<rparr>] 1 0 90
   = Inr \<lparr>SessionResult.wpm = 36, accuracy = 67,
           strugglingKeys = [\<lparr>key = js ''e'', errorCount = 1, avgDelay = 400\<rparr>],
           totalKeystrokes = 3, correctKeystrokes = 2, timeElapsed = 1, completedWords = 0,
           totalWords = 90, aiInsights = js ''Keep going.''\<rparr>
   \<and> (2::nat) \<le> 3 \<and> (0::int) \<le> 67 \<and> (67::int) \<le> 100
   \<and> (67::int) = Math_round (fl (fl (of_nat 2 / of_nat 3) * 100))"
  (is "?scored \<and> _")
proof -
  have h: ?scored by code_simp
  from accuracy_is_rounded_percentage [OF h] h show ?thesis by simp
qed

lemma scan_keystrokes_no_error:
  "\<forall>k \<in> set ks. isCorrect k \<or> Keystroke.key k = Backspace \<Longrightarrow>
   scan_keystrokes lower prev keyErrors ks = Inr keyErrors"
  by (induction ks arbitrary: prev) auto

lemma Object_entries_Nil [simp]: "Object_entries [] = []"
  by (simp add: Object_entries_def)








text \<open>
  Outside that domain the handler can fail: when a keystroke after the first is incorrect
  and expects \<^verbatim>\<open>constructor\<close>, the bucket found is the inherited function, the call
  \<^verbatim>\<open>keyErrors[key].delays.push\<close> throws, and the answer has status 500. The page
  sends expected strings of at most one code unit.
\<close>

lemma inherited_name_fails:
  "POST_analyze_session None
     [\<lparr>char = js ''a'', expected = js ''a'', timestamp = 0, key = js ''a'', isCorrect = True,
       wordIndex = 0, charIndex = 0\<rparr>,
      \<lparr>char = js ''x'', expected = js ''constructor'', timestamp = 300, key = js ''x'',
       isCorrect = False, wordIndex = 0, charIndex = 1\<rparr>] 1 0 1
   = Inl AnalysisFailed"
  by code_simp

text \<open>
  C6, as the code has it. Sixty correct keystrokes, none of them a Backspace, in sixty
  seconds are twelve words of five characters in one minute: the speed is 12.
\<close>

theorem sixty_keystrokes_in_sixty_seconds:
  assumes "length ks = 60"
      and "\<forall>k \<in> set ks. isCorrect k \<and> Keystroke.key k \<noteq> Backspace"
  shows "\<exists>r. POST_analyze_session insights ks 60 cw tw = Inr r \<and> SessionResult.wpm r = 12"
proof -
  have s: "scan_keystrokes toLowerCase None [] ks = Inr []"
    using assms(2) by (intro scan_keystrokes_no_error) simp
  have c: "filter (\<lambda>k. Keystroke.key k \<noteq> Backspace) ks = ks"
    using assms(2) by (simp add: filter_id_conv)
  show ?thesis
    by (simp add: POST_analyze_session_def POST_analyze_session_with_def s c assms(1) fl_one
          fl_twelve by_errorCount_def Let_def)
qed

theorem sixty_keystrokes_in_sixty_seconds_witness:
  "length (replicate 60 \<lparr>char = js ''a'', expected = js ''a'', timestamp = 0, key = js ''a'',
                          isCorrect = True, wordIndex = 0, charIndex = 0\<rparr>) = 60
   \<and> (\<exists>r. POST_analyze_session None
              (replicate 60 \<lparr>char = js ''a'', expected = js ''a'', timestamp = 0, key = js ''a'',
                              isCorrect = True, wordIndex = 0, charIndex = 0\<rparr>) 60 12 90 = Inr r
            \<and> SessionResult.wpm r = 12)"
proof -
  have "js ''a'' \<noteq> Backspace" by (simp add: js_def Backspace_def)
  then show ?thesis
    using sixty_keystrokes_in_sixty_seconds
      [of "replicate 60 \<lparr>char = js ''a'', expected = js ''a'', timestamp = 0, key = js ''a'',
                           isCorrect = True, wordIndex = 0, charIndex = 0\<rparr>" None 12 90]
    by simp
qed

text \<open>
  The claim C6 as it is written, a speed of 60 for these sixty keystrokes, fails: the
  handler answers 12.
\<close>

theorem sixty_keystrokes_counterexample:
  "map_sum id SessionResult.wpm
     (POST_analyze_session None
        (replicate 60 \<lparr>char = js ''a'', expected = js ''a'', timestamp = 0, key = js ''a'',
                        isCorrect = True, wordIndex = 0, charIndex = 0\<rparr>) 60 12 90)
   = Inr 12"
  by code_simp

section \<open>Text normalizer: length and alphabet of the tokens\<close>

lemma split_ws_tokens:
  "w \<in> set (split_ws s) \<Longrightarrow> c \<in> set w \<Longrightarrow> c \<in> set s \<and> \<not> is_space c"
proof (induction s arbitrary: w)
  case Nil
  then show ?case by simp
next
  case (Cons a s)
  show ?case
  proof (cases "is_space a")
    case True
    then have "w = [] \<or> w \<in> set (split_ws s)"
      using Cons.prems(1) by (auto split: if_splits)
    then show ?thesis using Cons.IH Cons.prems(2) by auto
  next
    case False
    show ?thesis
    proof (cases "split_ws s")
      case Nil
      then show ?thesis using False Cons.prems by auto
    next
      case (Cons v vs)
      then have "w = a # v \<or> w \<in> set vs"
        using False Cons.prems(1) by auto
      moreover have "v \<in> set (split_ws s)" "set vs \<subseteq> set (split_ws s)"
        using Cons by auto
      ultimately show ?thesis
        using False Cons.IH Cons.prems(2) by (metis insert_iff list.simps(15) subsetD)
    qed
  qed
qed

lemma cleaned_tokens_match:
  assumes "w \<in> set (take 90 (filter (\<lambda>word. length word > 0 \<and> length word \<le> 10)
                    (split_ws (filter (\<lambda>c. is_az c \<or> is_space c) s))))"
  shows "matches_token w"
proof -
  from assms have "w \<in> set (filter (\<lambda>word. length word > 0 \<and> length word \<le> 10)
                    (split_ws (filter (\<lambda>c. is_az c \<or> is_space c) s)))"
    by (rule in_set_takeD)
  then have w: "w \<in> set (split_ws (filter (\<lambda>c. is_az c \<or> is_space c) s))"
    and len: "0 < length w" "length w \<le> 10" by simp_all
  have "is_az c" if "c \<in> set w" for c
    using split_ws_tokens [OF w that] by auto
  then show ?thesis using len by (cases w) (simp_all add: matches_token_def list_all_iff)
qed

lemma fallbackWords_match: "w \<in> set fallbackWords \<Longrightarrow> matches_token w"
proof -
  have "list_all matches_token fallbackWords"
    by (simp add: fallbackWords_def matches_token_def js_def is_az_def)
  then show "w \<in> set fallbackWords \<Longrightarrow> matches_token w" by (simp add: list_all_iff)
qed

lemma fallbackWords_not_Nil: "fallbackWords \<noteq> []"
  by (simp add: fallbackWords_def)

lemma pad_props:
  "length ws \<le> 90 \<Longrightarrow> length (pad ws) = 90 \<and> set (pad ws) \<subseteq> set ws \<union> set fallbackWords"
proof (induction ws rule: pad.induct)
  case (1 words)
  show ?case
  proof (cases "length words < 90")
    case True
    let ?w = "fallbackWords ! (length words mod length fallbackWords)"
    have mem: "?w \<in> set fallbackWords"
      using fallbackWords_not_Nil by (intro nth_mem) simp
    have "length (pad (words @ [?w])) = 90 \<and>
          set (pad (words @ [?w])) \<subseteq> set (words @ [?w]) \<union> set fallbackWords"
      using True by (intro "1.IH") simp_all
    moreover have "pad words = pad (words @ [?w])"
      using True by (subst pad.simps) simp
    ultimately show ?thesis using mem by auto
  next
    case False
    then have "pad words = words" by (subst pad.simps) simp
    then show ?thesis using False "1.prems" by simp
  qed
qed

lemma coverage_words_match:
  assumes "alphabetCoverageWords letter = Some cw"
  shows "list_all matches_token cw \<and> length cw \<in> {5, 6, 7}"
  using assms
  by (auto simp: alphabetCoverageWords_def js_def matches_token_def is_az_def split: if_splits)

lemma below_bound:
  "fl ((1 - 1 / 2 ^ 53) * 5) < 5" "fl ((1 - 1 / 2 ^ 53) * 6) < 6" "fl ((1 - 1 / 2 ^ 53) * 7) < 7"
  by code_simp+

lemma random_below_less:
  assumes "Math_random_value (rnd i)" "n \<in> {5, 6, 7}"
  shows "random_below rnd i n < n"
proof -
  let ?u = "rnd i"
  from assms(1) have d: "fl ?u = ?u" and u0: "0 \<le> ?u" and u1: "?u < 1"
    by (simp_all add: Math_random_value_def)
  have top: "?u \<le> 1 - 1 / 2 ^ 53" using d u0 u1 by (rule double_below_one)
  have n0: "(0::rat) \<le> of_nat n" by simp
  have p0: "0 \<le> ?u * of_nat n" using u0 n0 by simp
  have p1: "?u * of_nat n \<le> (1 - 1 / 2 ^ 53) * of_nat n"
    using top n0 by (rule mult_right_mono)
  have "fl (?u * of_nat n) \<le> fl ((1 - 1 / 2 ^ 53) * of_nat n)"
    using p0 p1 by (rule fl_mono_nonneg)
  moreover have "fl ((1 - 1 / 2 ^ 53) * of_nat n) < of_nat n"
    using assms(2) below_bound by auto
  ultimately have lt: "fl (?u * of_nat n) < of_nat n" by simp
  have ge: "0 \<le> fl (?u * of_nat n)" using p0 by (rule fl_nonneg)
  have "\<lfloor>fl (?u * of_nat n)\<rfloor> < int n" using lt by (simp add: floor_less_iff)
  moreover have "0 \<le> \<lfloor>fl (?u * of_nat n)\<rfloor>" using ge by simp
  ultimately show ?thesis by (simp add: random_below_def Math_floor_def nat_less_iff)
qed

lemma slots_ok_update:
  "slots_ok slots \<Longrightarrow> matches_token w \<Longrightarrow> slots_ok (slots[i := Some w])"
  unfolding slots_ok_def using set_update_subset_insert [of slots i "Some w"] by auto

lemma slots_ok_append:
  "slots_ok slots \<Longrightarrow> matches_token w \<Longrightarrow> slots_ok (slots @ [Some w])"
  unfolding slots_ok_def by auto

lemma place_fallback_ok:
  assumes "slots_ok (fst st)"
  shows "slots_ok (fst (place_fallback rnd st letter))"
proof (cases st)
  case (Pair slots i)
  show ?thesis
  proof (cases "find (\<lambda>w. includes' w letter) fallbackWords")
    case None
    then show ?thesis using assms Pair by (simp add: place_fallback_def)
  next
    case (Some w)
    then have "w \<in> set fallbackWords" by (auto simp: find_Some_iff)
    then have "matches_token w" by (rule fallbackWords_match)
    then show ?thesis
      using assms Pair Some by (simp add: place_fallback_def Let_def slots_ok_update)
  qed
qed

lemma place_letter_ok:
  assumes "slots_ok (fst st)" "\<forall>i. Math_random_value (rnd i)"
  shows "slots_ok (fst (place_letter rnd st letter))"
proof (cases st)
  case (Pair slots i)
  show ?thesis
  proof (cases "alphabetCoverageWords letter")
    case None
    then show ?thesis using place_fallback_ok [OF assms(1)] Pair by (simp add: place_letter_def)
  next
    case (Some cw)
    from coverage_words_match [OF Some]
    have all: "list_all matches_token cw" and len: "length cw \<in> {5, 6, 7}" by simp_all
    have pick: "random_below rnd (i + 1) (length cw) < length cw"
      using assms(2) len by (intro random_below_less) simp_all
    then have "matches_token (cw ! random_below rnd (i + 1) (length cw))"
      using all by (simp add: list_all_length)
    then show ?thesis
      using assms(1) Pair Some pick len
      by (auto simp: place_letter_def Let_def slots_ok_update slots_ok_append)
  qed
qed

lemma foldl_place_letter_ok:
  assumes "\<forall>i. Math_random_value (rnd i)"
  shows "slots_ok (fst st) \<Longrightarrow> slots_ok (fst (foldl (place_letter rnd) st missing))"
proof (induction missing arbitrary: st)
  case Nil
  then show ?case by simp
next
  case (Cons letter missing)
  have "slots_ok (fst (place_letter rnd st letter))"
    using Cons.prems assms by (rule place_letter_ok)
  then show ?case by (simp add: Cons.IH)
qed

lemma ensureAllLetters_ok:
  assumes "\<forall>i. Math_random_value (rnd i)" "length words = 90" "\<forall>w \<in> set words. matches_token w"
  shows "length (ensureAllLetters rnd words) = 90
         \<and> (\<forall>t \<in> set (ensureAllLetters rnd words). \<exists>w. t = Some w \<and> matches_token w)"
proof -
  have start: "slots_ok (fst (map Some words, 0::nat))"
    using assms(2,3) by (auto simp: slots_ok_def)
  have "slots_ok (fst (foldl (place_letter rnd) (map Some words, 0) missing))" for missing
    using assms(1) start by (rule foldl_place_letter_ok)
  then have fin: "90 \<le> length (fst (foldl (place_letter rnd) (map Some words, 0) missing))"
    "\<forall>t \<in> set (take 90 (fst (foldl (place_letter rnd) (map Some words, 0) missing))).
        \<exists>w. t = Some w \<and> matches_token w" for missing
    by (auto simp: slots_ok_def dest: in_set_takeD)
  show ?thesis
    using assms(2,3) fin by (auto simp: ensureAllLetters_def Let_def)
qed

text \<open>
  C1. Whatever the input string and whatever \<^verbatim>\<open>Math.random\<close> returns, the normalizer
  returns exactly 90 elements, each of them a string that matches \<^verbatim>\<open>^[a-z]{1,10}$\<close>.
\<close>

theorem cleanAndPadWords_shape:
  assumes "\<forall>i. Math_random_value (rnd i)"
  shows "length (cleanAndPadWords rnd input) = 90
         \<and> (\<forall>t \<in> set (cleanAndPadWords rnd input). \<exists>w. t = Some w \<and> matches_token w)"
proof -
  define words where "words = take 90 (filter (\<lambda>word. length word > 0 \<and> length word \<le> 10)
     (split_ws (filter (\<lambda>c. is_az c \<or> is_space c) (toLowerCase input))))"
  have short: "length words \<le> 90" by (simp add: words_def)
  have tok: "\<forall>w \<in> set words. matches_token w"
    unfolding words_def using cleaned_tokens_match by blast
  from pad_props [OF short]
  have len: "length (pad words) = 90" and sub: "set (pad words) \<subseteq> set words \<union> set fallbackWords"
    by simp_all
  have "\<forall>w \<in> set (pad words). matches_token w"
    using sub tok fallbackWords_match by blast
  with assms len show ?thesis
    unfolding cleanAndPadWords_def Let_def words_def [symmetric] by (rule ensureAllLetters_ok)
qed

lemma quarter_half: "Math_random_value (1 / 4)" "Math_random_value (1 / 2)"
  unfolding Math_random_value_def by code_simp+

theorem cleanAndPadWords_shape_witness:
  "length (cleanAndPadWords (\<lambda>i. if even i then 1 / 4 else 1 / 2) (js ''Hello, World! 42'')) = 90
   \<and> list_all (\<lambda>t. case t of Some w \<Rightarrow> matches_token w | None \<Rightarrow> False)
        (cleanAndPadWords (\<lambda>i. if even i then 1 / 4 else 1 / 2) (js ''Hello, World! 42''))"
proof -
  have "\<forall>i. Math_random_value ((\<lambda>i::nat. if even i then 1 / 4 else 1 / 2) i)"
    using quarter_half by simp
  from cleanAndPadWords_shape [OF this, of "js ''Hello, World! 42''"]
  show ?thesis by (auto simp: list_all_iff)
qed

section \<open>Text normalizer: coverage of the alphabet\<close>

lemma pad_eq:
  "length ws \<le> 90 \<Longrightarrow>
   pad ws = ws @ map (\<lambda>i. fallbackWords ! (i mod length fallbackWords)) [length ws..<90]"
proof (induction ws rule: pad.induct)
  case (1 words)
  show ?case
  proof (cases "length words < 90")
    case True
    let ?w = "fallbackWords ! (length words mod length fallbackWords)"
    have "pad words = pad (words @ [?w])"
      using True by (subst pad.simps) simp
    also have "\<dots> = (words @ [?w])
        @ map (\<lambda>i. fallbackWords ! (i mod length fallbackWords)) [length (words @ [?w])..<90]"
      using True by (intro "1.IH") simp_all
    also have "\<dots> = words
        @ map (\<lambda>i. fallbackWords ! (i mod length fallbackWords)) [length words..<90]"
      using True by (simp add: upt_conv_Cons)
    finally show ?thesis .
  next
    case False
    then have "pad words = words" by (subst pad.simps) simp
    then show ?thesis using False "1.prems" by simp
  qed
qed

lemma length_fallbackWords: "length fallbackWords = 94"
  by (simp add: fallbackWords_def)

lemma pad_Nil: "pad [] = take 90 fallbackWords"
proof -
  have "pad [] = map (\<lambda>i. fallbackWords ! (i mod length fallbackWords)) [0..<90]"
    using pad_eq [of "[]"] by simp
  also have "\<dots> = map (\<lambda>i. fallbackWords ! i) [0..<90]"
    by (rule map_cong) (simp_all add: length_fallbackWords)
  also have "\<dots> = take 90 fallbackWords"
    by (rule nth_equalityI) (simp_all add: length_fallbackWords)
  finally show ?thesis .
qed

lemma uncovered_after_overwrite:
  "getMissingLetters (text_of (ensureAllLetters (\<lambda>i. if even i then 1 / 4 else 1 / 2)
     (take 90 fallbackWords))) = js ''q''"
  by code_simp

text \<open>
  C2 fails on the code. The empty input is padded with the first 90 fallback words, which
  lack \<^verbatim>\<open>q\<close> and \<^verbatim>\<open>z\<close>. When \<^verbatim>\<open>Math.random\<close> returns 0.25, 0.5, 0.25, 0.5, the
  word for \<^verbatim>\<open>q\<close> goes to slot 47 and the word for \<^verbatim>\<open>z\<close> then overwrites it in the
  same slot: the text that is returned has no \<^verbatim>\<open>q\<close>.
\<close>

theorem alphabet_not_covered:
  "getMissingLetters (text_of (cleanAndPadWords (\<lambda>i. if even i then 1 / 4 else 1 / 2) (js '''')))
   = js ''q''"
  using uncovered_after_overwrite
  by (simp add: cleanAndPadWords_def js_def toLowerCase_def pad_Nil)

section \<open>The fallback text of the page\<close>

lemma fallback_text_tokens:
  "split_space (PreloadedText.text (fetchText None)) = map js
     [''the'', ''quick'', ''brown'', ''fox'', ''jumps'', ''over'', ''the'', ''lazy'', ''dog'',
      ''and'', ''runs'', ''into'', ''the'', ''forest'', ''where'', ''animals'', ''live'', ''in'',
      ''peace'', ''under'', ''tall'', ''trees'', ''that'', ''give'', ''shade'', ''from'', ''the'',
      ''hot'', ''sun'', ''while'', ''birds'', ''sing'', ''their'', ''songs'', ''high'', ''above'',
      ''in'', ''branches'', ''where'', ''they'', ''build'', ''nests'', ''to'', ''raise'', ''young'',
      ''ones'', ''who'', ''will'', ''soon'', ''fly'', ''and'', ''explore'', ''the'', ''world'']"
  by code_simp

text \<open>
  C9, as the code has it. The text that \<^verbatim>\<open>fetchText\<close> returns when the request fails
  is shown as it is, split at single spaces: 54 tokens, each matching
  \<^verbatim>\<open>^[a-z]{1,10}$\<close>, with every letter of the alphabet among them.
\<close>

theorem fallback_text_shape:
  "length (split_space (PreloadedText.text (fetchText None))) = 54
   \<and> list_all matches_token (split_space (PreloadedText.text (fetchText None)))
   \<and> getMissingLetters (PreloadedText.text (fetchText None)) = []"
proof -
  have "list_all matches_token (split_space (PreloadedText.text (fetchText None)))"
    unfolding fallback_text_tokens by (simp add: matches_token_def js_def is_az_def)
  moreover have "getMissingLetters (PreloadedText.text (fetchText None)) = []"
    by code_simp
  ultimately show ?thesis by (simp add: fallback_text_tokens)
qed

text \<open>The claim C9 as it is written, exactly 90 tokens, fails.\<close>

theorem fallback_text_counterexample:
  "length (split_space (PreloadedText.text (fetchText None))) \<noteq> 90"
  by (simp add: fallback_text_tokens)

section \<open>Dictionaries: keys in the order of creation\<close>

lemma map_of_put: "map_of (put obj name v) = (map_of obj)(name \<mapsto> v)"
  by (induction obj) (auto simp: fun_eq_iff)

lemma keys_put:
  "map fst (put obj name v) = (if name \<in> fst ` set obj then map fst obj else map fst obj @ [name])"
  by (induction obj) auto

lemma keyset_put: "fst ` set (put obj name v) = insert name (fst ` set obj)"
  by (induction obj) auto

lemma set_first_seen [simp]: "set (first_seen xs) = set xs"
  by (induction xs) auto

lemma distinct_first_seen [simp]: "distinct (first_seen xs)"
  by (induction xs) (auto simp: distinct_removeAll)

lemma filter_removeAll_commute: "filter P (removeAll x xs) = removeAll x (filter P xs)"
  by (induction xs) auto

lemma removeAll_absent: "\<not> P x \<Longrightarrow> removeAll x (filter P xs) = filter P xs"
  by (induction xs) auto

lemma filter_first_seen: "filter P (first_seen xs) = first_seen (filter P xs)"
  by (induction xs) (auto simp: filter_removeAll_commute removeAll_absent)

lemma own_iff: "map_of obj name = None \<longleftrightarrow> name \<notin> fst ` set obj"
  by (simp add: map_of_eq_None_iff)

lemma buckets_skip:
  "\<not> (\<not> isCorrect k \<and> Keystroke.key k \<noteq> Backspace) \<Longrightarrow> buckets_with lower (k # ks) = buckets_with lower ks"
  by (simp add: buckets_with_def contributing_def)

lemma buckets_inherited:
  "inherited (lower (expected k)) \<Longrightarrow> buckets_with lower (k # ks) = buckets_with lower ks"
  by (simp add: buckets_with_def contributing_def bucket_with_def)

lemma buckets_new:
  "\<not> isCorrect k \<and> Keystroke.key k \<noteq> Backspace \<Longrightarrow> \<not> inherited (lower (expected k)) \<Longrightarrow>
   buckets_with lower (k # ks) = lower (expected k) # buckets_with lower ks"
  by (simp add: buckets_with_def contributing_def bucket_with_def)

lemma scan_keystrokes_keys:
  "scan_keystrokes lower prev obj ks = Inr obj' \<Longrightarrow>
   map fst obj' = map fst obj @ filter (\<lambda>name. name \<notin> fst ` set obj) (first_seen (buckets_with lower ks))"
proof (induction ks arbitrary: prev obj)
  case Nil
  then show ?case by (simp add: buckets_with_def contributing_def)
next
  case (Cons k ks)
  let ?name = "lower (expected k)"
  show ?case
  proof (cases "\<not> isCorrect k \<and> Keystroke.key k \<noteq> Backspace")
    case False
    then have "scan_keystrokes lower (Some k) obj ks = Inr obj'" using Cons.prems by auto
    from Cons.IH [OF this] show ?thesis by (simp add: buckets_skip [OF False])
  next
    case True
    show ?thesis
    proof (cases "map_of obj ?name")
      case (Some entry)
      then have own: "?name \<in> fst ` set obj" using own_iff [of obj ?name] by simp
      have "scan_keystrokes lower (Some k) (put obj ?name (record_error prev k entry)) ks = Inr obj'"
        using Cons.prems True Some by simp
      from Cons.IH [OF this]
      have IH: "map fst obj' = map fst obj @ filter (\<lambda>name. name \<notin> fst ` set obj) (first_seen (buckets_with lower ks))"
        using own by (simp add: keys_put keyset_put insert_absorb)
      have same: "filter (\<lambda>name. name \<notin> fst ` set obj) (removeAll ?name (first_seen (buckets_with lower ks)))
        = filter (\<lambda>name. name \<notin> fst ` set obj) (first_seen (buckets_with lower ks))"
        using own by (simp add: filter_removeAll_commute removeAll_absent)
      show ?thesis
      proof (cases "inherited ?name")
        case True
        then show ?thesis using IH by (simp add: buckets_inherited)
      next
        case False
        then show ?thesis using IH own same by (simp add: buckets_new [where lower = lower and k = k, OF True False])
      qed
    next
      case None
      then have fresh: "?name \<notin> fst ` set obj" using own_iff [of obj ?name] by simp
      show ?thesis
      proof (cases "inherited ?name")
        case inh: True
        then have "scan_keystrokes lower (Some k) obj ks = Inr obj'"
          using Cons.prems True None by (auto split: option.splits)
        from Cons.IH [OF this] show ?thesis by (simp add: buckets_inherited [where lower = lower and k = k, OF inh])
      next
        case False
        let ?obj = "put obj ?name (record_error prev k \<lparr>errors = 0, delays = []\<rparr>)"
        have "scan_keystrokes lower (Some k) ?obj ks = Inr obj'"
          using Cons.prems True None False by simp
        from Cons.IH [OF this]
        have "map fst obj' = map fst obj @ ?name #
            filter (\<lambda>name. name \<notin> fst ` set obj \<and> name \<noteq> ?name) (first_seen (buckets_with lower ks))"
          using fresh by (simp add: keys_put keyset_put conj_commute)
        moreover have "filter (\<lambda>name. name \<notin> fst ` set obj \<and> name \<noteq> ?name) (first_seen (buckets_with lower ks))
          = filter (\<lambda>name. name \<notin> fst ` set obj) (removeAll ?name (first_seen (buckets_with lower ks)))"
          by (auto simp: removeAll_filter_not_eq intro: filter_cong)
        ultimately show ?thesis using fresh by (simp add: buckets_new [where lower = lower and k = k, OF True False])
      qed
    qed
  qed
qed

lemma scan_keystrokes_errors:
  "scan_keystrokes lower prev obj ks = Inr obj' \<Longrightarrow> \<not> inherited name \<Longrightarrow>
   errors_of obj' name = errors_of obj name + count_list (buckets_with lower ks) name"
proof (induction ks arbitrary: prev obj)
  case Nil
  then show ?case by (simp add: buckets_with_def contributing_def)
next
  case (Cons k ks)
  let ?name = "lower (expected k)"
  show ?case
  proof (cases "\<not> isCorrect k \<and> Keystroke.key k \<noteq> Backspace")
    case False
    then have "scan_keystrokes lower (Some k) obj ks = Inr obj'" using Cons.prems by auto
    from Cons.IH [OF this Cons.prems(2)] show ?thesis by (simp add: buckets_skip [OF False])
  next
    case True
    show ?thesis
    proof (cases "map_of obj ?name")
      case (Some entry)
      let ?obj = "put obj ?name (record_error prev k entry)"
      have "scan_keystrokes lower (Some k) ?obj ks = Inr obj'"
        using Cons.prems True Some by simp
      from Cons.IH [OF this Cons.prems(2)]
      have "errors_of obj' name = errors_of ?obj name + count_list (buckets_with lower ks) name" .
      moreover have "errors_of ?obj name = errors_of obj name + (if ?name = name then 1 else 0)"
        using Some by (auto simp: errors_of_def map_of_put record_error_def split: option.splits)
      ultimately show ?thesis
        using Cons.prems(2) by (cases "inherited ?name") (auto simp: buckets_inherited buckets_new [where lower = lower and k = k, OF True])
    next
      case None
      show ?thesis
      proof (cases "inherited ?name")
        case inh: True
        then have "scan_keystrokes lower (Some k) obj ks = Inr obj'"
          using Cons.prems True None by (auto split: option.splits)
        from Cons.IH [OF this Cons.prems(2)] show ?thesis by (simp add: buckets_inherited [where lower = lower and k = k, OF inh])
      next
        case False
        let ?obj = "put obj ?name (record_error prev k \<lparr>errors = 0, delays = []\<rparr>)"
        have "scan_keystrokes lower (Some k) ?obj ks = Inr obj'"
          using Cons.prems True None False by simp
        from Cons.IH [OF this Cons.prems(2)]
        have "errors_of obj' name = errors_of ?obj name + count_list (buckets_with lower ks) name" .
        moreover have "errors_of ?obj name = errors_of obj name + (if ?name = name then 1 else 0)"
          using None by (auto simp: errors_of_def map_of_put record_error_def split: option.splits)
        ultimately show ?thesis by (auto simp: buckets_new [where lower = lower and k = k, OF True False])
      qed
    qed
  qed
qed

lemma map_insort_key:
  "map f (insort_key (\<lambda>x. g (f x)) x xs) = insort_key g (f x) (map f xs)"
  by (induction xs) auto

lemma map_sort_key: "map f (sort_key (\<lambda>x. g (f x)) xs) = sort_key g (map f xs)"
  by (induction xs) (auto simp: map_insort_key)

lemma keys_Object_entries: "map fst (Object_entries obj) = enumeration (map fst obj)"
proof -
  let ?g = "\<lambda>name. case array_index name of Some n \<Rightarrow> n | None \<Rightarrow> 0"
  have "map fst (sort_key (\<lambda>p. ?g (fst p)) xs) = sort_key ?g (map fst xs)" for xs :: "(jsstring \<times> 'a) list"
    by (rule map_sort_key)
  then show ?thesis
    by (simp add: Object_entries_def enumeration_def filter_map comp_def)
qed

lemma set_Object_entries: "set (Object_entries obj) = set obj"
  by (auto simp: Object_entries_def)

lemma filter_take_prefix: "\<exists>n. filter P (take m xs) = take n (filter P xs)"
proof -
  have "filter P xs = filter P (take m xs) @ filter P (drop m xs)"
    by (metis append_take_drop_id filter_append)
  then have "take (length (filter P (take m xs))) (filter P xs) = filter P (take m xs)" by simp
  then show ?thesis by metis
qed

lemma count_list_buckets:
  "\<not> inherited name \<Longrightarrow>
   count_list (buckets_with lower ks) name = length (filter (\<lambda>k. bucket_with lower k = name) (contributing ks))"
proof -
  assume n: "\<not> inherited name"
  have "count_list (filter (\<lambda>x. \<not> inherited x) (map f xs)) name = length (filter (\<lambda>k. f k = name) xs)"
    for f :: "Keystroke \<Rightarrow> jsstring" and xs
    using n by (induction xs) auto
  then show ?thesis by (simp add: buckets_with_def)
qed

lemma POST_strugglingKeys:
  assumes "POST_analyze_session_with lower insights ks t cw tw = Inr r"
  shows "\<exists>obj. scan_keystrokes lower None [] ks = Inr obj
           \<and> SessionResult.strugglingKeys r = take 5 (by_errorCount
                (map (\<lambda>(key, data). \<lparr>key = key, errorCount = errors data,
                                        avgDelay = average_delay (delays data)\<rparr>)
                     (Object_entries obj)))"
  using assms by (auto simp: POST_analyze_session_with_def Let_def split: sum.splits)

lemma bucket_entries:
  assumes "scan_keystrokes lower None [] ks = Inr obj"
    and "E = map (\<lambda>(key, data). \<lparr>key = key, errorCount = errors data,
                                    avgDelay = average_delay (delays data)\<rparr>) (Object_entries obj)"
  shows "map KeyCount.key E = enumeration (first_seen (buckets_with lower ks))"
    and "\<forall>e \<in> set E. errorCount e = count_list (buckets_with lower ks) (KeyCount.key e)
                       \<and> KeyCount.key e \<in> set (buckets_with lower ks)"
proof -
  have keys: "map fst obj = first_seen (buckets_with lower ks)"
    using scan_keystrokes_keys [OF assms(1)] by simp
  have "map KeyCount.key E = map fst (Object_entries obj)"
    by (simp add: assms(2) comp_def case_prod_beta)
  then show "map KeyCount.key E = enumeration (first_seen (buckets_with lower ks))"
    by (simp add: keys_Object_entries keys)
  have d: "distinct (map fst obj)" by (simp add: keys)
  show "\<forall>e \<in> set E. errorCount e = count_list (buckets_with lower ks) (KeyCount.key e)
                       \<and> KeyCount.key e \<in> set (buckets_with lower ks)"
  proof
    fix e assume "e \<in> set E"
    then obtain name data where m: "(name, data) \<in> set obj"
      and e: "errorCount e = errors data" "KeyCount.key e = name"
      by (auto simp: assms(2) set_Object_entries)
    have "name \<in> set (map fst obj)" using m by force
    then have b: "name \<in> set (buckets_with lower ks)" by (simp add: keys)
    then have n: "\<not> inherited name" by (simp add: buckets_with_def)
    have "map_of obj name = Some data" using d m by (rule map_of_is_SomeI)
    then have "errors_of obj name = errors data" by (simp add: errors_of_def)
    moreover have "errors_of obj name = errors_of [] name + count_list (buckets_with lower ks) name"
      using assms(1) n by (rule scan_keystrokes_errors)
    ultimately show "errorCount e = count_list (buckets_with lower ks) (KeyCount.key e)
                       \<and> KeyCount.key e \<in> set (buckets_with lower ks)"
      using e b by (simp add: errors_of_def)
  qed
qed

lemma bucket_with_toLowerCase: "bucket_with toLowerCase k = bucket_of k"
  by (simp add: bucket_with_def bucket_of_def)

lemma buckets_with_toLowerCase: "buckets_with toLowerCase ks = buckets ks"
proof -
  have "bucket_with toLowerCase = bucket_of"
    by (rule ext) (rule bucket_with_toLowerCase)
  then show ?thesis by (simp add: buckets_with_def buckets_def)
qed

lemma by_errorCount_sorted:
  "sorted_wrt (\<lambda>a b. errorCount b \<le> errorCount a) (by_errorCount xs)"
proof -
  have "sorted (map (\<lambda>s. - int (errorCount s)) (by_errorCount xs))"
    unfolding by_errorCount_def by (rule sorted_sort_key)
  then show ?thesis by (simp add: sorted_map)
qed

lemma by_errorCount_stable:
  "filter (\<lambda>s. errorCount s = c) (by_errorCount xs) = filter (\<lambda>s. errorCount s = c) xs"
proof -
  have "filter (\<lambda>s. - int (errorCount s) = - int c) (by_errorCount xs)
      = filter (\<lambda>s. - int (errorCount s) = - int c) xs"
    unfolding by_errorCount_def by (rule sort_key_stable)
  then show ?thesis by simp
qed


section \<open>The merged histogram of the aggregator\<close>

lemma merge_keys_append:
  "merge_keys m (xs @ ys) = (case merge_keys m xs of Inl e \<Rightarrow> Inl e | Inr m' \<Rightarrow> merge_keys m' ys)"
  by (induction xs arbitrary: m) (auto split: option.splits)

lemma merge_keys_keys:
  "merge_keys m es = Inr m' \<Longrightarrow>
   map fst m' = map fst m @ filter (\<lambda>name. name \<notin> fst ` set m) (first_seen (map KeyCount.key es))"
proof (induction es arbitrary: m)
  case Nil
  then show ?case by simp
next
  case (Cons e es)
  let ?name = "KeyCount.key e"
  show ?case
  proof (cases "map_of m ?name")
    case (Some n)
    then have own: "?name \<in> fst ` set m" using own_iff [of m ?name] by simp
    have "merge_keys (put m ?name (n + errorCount e)) es = Inr m'"
      using Cons.prems Some by simp
    from Cons.IH [OF this]
    have "map fst m' = map fst m @ filter (\<lambda>name. name \<notin> fst ` set m) (first_seen (map KeyCount.key es))"
      using own by (simp add: keys_put keyset_put insert_absorb)
    then show ?thesis
      using own by (simp add: filter_removeAll_commute removeAll_absent)
  next
    case None
    then have fresh: "?name \<notin> fst ` set m" using own_iff [of m ?name] by simp
    have "merge_keys (put m ?name (0 + errorCount e)) es = Inr m'"
      using Cons.prems None by (simp split: if_splits)
    from Cons.IH [OF this]
    have "map fst m' = map fst m @ ?name #
        filter (\<lambda>name. name \<notin> fst ` set m \<and> name \<noteq> ?name) (first_seen (map KeyCount.key es))"
      using fresh by (simp add: keys_put keyset_put conj_commute)
    moreover have "filter (\<lambda>name. name \<notin> fst ` set m \<and> name \<noteq> ?name) (first_seen (map KeyCount.key es))
        = filter (\<lambda>name. name \<notin> fst ` set m) (removeAll ?name (first_seen (map KeyCount.key es)))"
      by (auto simp: removeAll_filter_not_eq intro: filter_cong)
    ultimately show ?thesis using fresh by simp
  qed
qed

lemma merge_keys_totals:
  "merge_keys m es = Inr m' \<Longrightarrow>
   total_of m' name = total_of m name
     + sum_list (map errorCount (filter (\<lambda>e. KeyCount.key e = name) es))"
proof (induction es arbitrary: m)
  case Nil
  then show ?case by simp
next
  case (Cons e es)
  let ?name = "KeyCount.key e"
  show ?case
  proof (cases "map_of m ?name")
    case (Some n)
    let ?m = "put m ?name (n + errorCount e)"
    have "merge_keys ?m es = Inr m'" using Cons.prems Some by simp
    from Cons.IH [OF this]
    have "total_of m' name = total_of ?m name
        + sum_list (map errorCount (filter (\<lambda>e. KeyCount.key e = name) es))" .
    moreover have "total_of ?m name = total_of m name + (if ?name = name then errorCount e else 0)"
      using Some by (auto simp: total_of_def map_of_put)
    ultimately show ?thesis by auto
  next
    case None
    let ?m = "put m ?name (0 + errorCount e)"
    have "merge_keys ?m es = Inr m'" using Cons.prems None by (simp split: if_splits)
    from Cons.IH [OF this]
    have "total_of m' name = total_of ?m name
        + sum_list (map errorCount (filter (\<lambda>e. KeyCount.key e = name) es))" .
    moreover have "total_of ?m name = total_of m name + (if ?name = name then errorCount e else 0)"
      using None by (auto simp: total_of_def map_of_put)
    ultimately show ?thesis by auto
  qed
qed

lemma merge_keys_defined:
  "\<forall>e \<in> set es. \<not> inherited (KeyCount.key e) \<Longrightarrow> \<exists>m'. merge_keys m es = Inr m'"
  by (induction es arbitrary: m) (auto split: option.splits)

lemma scored_Cons_None: "result c = None \<Longrightarrow> scored (c # cs) = scored cs"
  by simp

lemma scored_Cons_Some: "result c = Some r \<Longrightarrow> scored (c # cs) = r # scored cs"
  by simp

lemma scan_challenges_totals:
  "scan_challenges (m, re, ta, tw, n) cs = Inr (m', re', ta', tw', n') \<Longrightarrow>
   merge_keys m (merged_entries cs) = Inr m'
   \<and> re' = re @ concat (map (\<lambda>c. mistyped (keystrokes c)) (filter (\<lambda>c. result c \<noteq> None) cs))
   \<and> ta' = ta + sum_list (map SessionResult.accuracy (scored cs))
   \<and> tw' = tw + sum_list (map SessionResult.wpm (scored cs))
   \<and> n' = n + length (scored cs)"
proof (induction cs arbitrary: m re ta tw n)
  case Nil
  then show ?case by (simp add: merged_entries_def)
next
  case (Cons c cs)
  show ?case
  proof (cases "result c")
    case None
    then have "scan_challenges (m, re, ta, tw, n) cs = Inr (m', re', ta', tw', n')"
      using Cons.prems by simp
    from Cons.IH [OF this] show ?thesis
      using None by (simp add: merged_entries_def)
  next
    case (Some r)
    then obtain m1 where m1: "merge_keys m (SessionResult.strugglingKeys r) = Inr m1"
      and "scan_challenges (m1, re @ mistyped (keystrokes c), ta + SessionResult.accuracy r,
             tw + SessionResult.wpm r, n + 1) cs = Inr (m', re', ta', tw', n')"
      using Cons.prems by (auto split: sum.splits)
    from Cons.IH [OF this(2)] show ?thesis
      using Some m1 by (simp add: merged_entries_def merge_keys_append)
  qed
qed

lemma scan_challenges_unscored:
  "\<forall>c \<in> set cs. result c = None \<Longrightarrow> scan_challenges st cs = Inr st"
  by (induction cs arbitrary: st) (auto split: prod.splits)

lemma scored_Nil_iff: "scored cs = [] \<longleftrightarrow> (\<forall>c \<in> set cs. result c = None)"
  by (induction cs) (auto split: option.splits)

lemma aggregatedPerformance_unscored:
  "\<forall>c \<in> set cs. result c = None \<Longrightarrow> aggregatedPerformance cs = Inr None"
  by (simp add: aggregatedPerformance_def scan_challenges_unscored)

lemma scan_challenges_defined:
  "\<forall>e \<in> set (merged_entries cs). \<not> inherited (KeyCount.key e) \<Longrightarrow>
   \<exists>st'. scan_challenges (m, re, ta, tw, n) cs = Inr st'"
proof (induction cs arbitrary: m re ta tw n)
  case Nil
  then show ?case by simp
next
  case (Cons c cs)
  show ?case
  proof (cases "result c")
    case None
    then show ?thesis using Cons by (simp add: merged_entries_def)
  next
    case (Some r)
    have "\<forall>e \<in> set (SessionResult.strugglingKeys r). \<not> inherited (KeyCount.key e)"
      using Cons.prems Some by (simp add: merged_entries_def)
    then obtain m1 where "merge_keys m (SessionResult.strugglingKeys r) = Inr m1"
      using merge_keys_defined by blast
    moreover have "\<forall>e \<in> set (merged_entries cs). \<not> inherited (KeyCount.key e)"
      using Cons.prems Some by (simp add: merged_entries_def)
    ultimately show ?thesis using Some Cons.IH by simp
  qed
qed

lemma aggregatedPerformance_Some:
  assumes "aggregatedPerformance cs = Inr (Some p)"
  shows "\<exists>m. merge_keys [] (merged_entries cs) = Inr m
    \<and> scored cs \<noteq> []
    \<and> PerformanceData.strugglingKeys p = take 8 (by_errorCount
         (map (\<lambda>(key, errorCount). \<lparr>key = key, errorCount = errorCount\<rparr>) (Object_entries m)))
    \<and> PerformanceData.accuracy p
        = Math_round (fl (of_int (sum_list (map SessionResult.accuracy (scored cs)))
                          / of_nat (length (scored cs))))
    \<and> PerformanceData.wpm p
        = Math_round (fl (of_int (sum_list (map SessionResult.wpm (scored cs)))
                          / of_nat (length (scored cs))))
    \<and> recentErrors p
        = drop (length (concat (map (\<lambda>c. mistyped (keystrokes c)) (filter (\<lambda>c. result c \<noteq> None) cs))) - 50)
            (concat (map (\<lambda>c. mistyped (keystrokes c)) (filter (\<lambda>c. result c \<noteq> None) cs)))"
proof -
  from assms obtain m' re' ta' tw' n'
    where scan: "scan_challenges ([], [], 0, 0, 0) cs = Inr (m', re', ta', tw', n')"
      and n: "n' \<noteq> 0"
      and p: "p = \<lparr>strugglingKeys = take 8 (by_errorCount
                     (map (\<lambda>(key, errorCount). \<lparr>key = key, errorCount = errorCount\<rparr>)
                          (Object_entries m'))),
                  accuracy = Math_round (fl (of_int ta' / of_nat n')),
                  wpm = Math_round (fl (of_int tw' / of_nat n')),
                  recentErrors = drop (length re' - 50) re'\<rparr>"
    by (auto simp: aggregatedPerformance_def split: if_splits sum.splits prod.splits)
  from scan_challenges_totals [OF scan] n p show ?thesis by auto
qed

lemma merged_histogram:
  assumes "merge_keys [] es = Inr m"
    and "E = map (\<lambda>(key, errorCount). \<lparr>key = key, errorCount = errorCount\<rparr>) (Object_entries m)"
  shows "map KeyCount.key E = enumeration (first_seen (map KeyCount.key es))"
    and "\<forall>x \<in> set E. errorCount x
            = sum_list (map errorCount (filter (\<lambda>e. KeyCount.key e = KeyCount.key x) es))"
proof -
  have keys: "map fst m = first_seen (map KeyCount.key es)"
    using merge_keys_keys [OF assms(1)] by simp
  have "map KeyCount.key E = map fst (Object_entries m)"
    by (simp add: assms(2) comp_def case_prod_beta)
  then show "map KeyCount.key E = enumeration (first_seen (map KeyCount.key es))"
    by (simp add: keys_Object_entries keys)
  have d: "distinct (map fst m)" by (simp add: keys)
  show "\<forall>x \<in> set E. errorCount x
            = sum_list (map errorCount (filter (\<lambda>e. KeyCount.key e = KeyCount.key x) es))"
  proof
    fix x assume "x \<in> set E"
    then obtain name total where mem: "(name, total) \<in> set m"
      and x: "errorCount x = total" "KeyCount.key x = name"
      by (auto simp: assms(2) set_Object_entries)
    have "map_of m name = Some total" using d mem by (rule map_of_is_SomeI)
    then have "total_of m name = total" by (simp add: total_of_def)
    moreover have "total_of m name = total_of [] name
        + sum_list (map errorCount (filter (\<lambda>e. KeyCount.key e = name) es))"
      using assms(1) by (rule merge_keys_totals)
    ultimately show "errorCount x
        = sum_list (map errorCount (filter (\<lambda>e. KeyCount.key e = KeyCount.key x) es))"
      using x by (simp add: total_of_def)
  qed
qed

lemma set_enumeration [simp]: "set (enumeration names) = set names"
  by (auto simp: enumeration_def)

lemma length_enumeration [simp]: "length (enumeration names) = length names"
  using sum_length_filter_compl [of "\<lambda>name. array_index name \<noteq> None" names]
  by (simp add: enumeration_def)

lemma distinct_enumeration: "distinct names \<Longrightarrow> distinct (enumeration names)"
  by (auto simp: enumeration_def)

lemma enumeration_without_indices:
  "\<forall>name \<in> set names. array_index name = None \<Longrightarrow> enumeration names = names"
  by (simp add: enumeration_def filter_empty_conv)

lemma distinct_map_insort_key:
  "distinct (map f (insort_key g x xs)) \<longleftrightarrow> f x \<notin> f ` set xs \<and> distinct (map f xs)"
  by (induction xs) (auto simp: set_insort_key)

lemma distinct_map_sort_key: "distinct (map f (sort_key g xs)) \<longleftrightarrow> distinct (map f xs)"
  by (induction xs) (auto simp: distinct_map_insort_key)

lemma distinct_keys_take_by_errorCount:
  "distinct (map KeyCount.key E) \<Longrightarrow> distinct (map KeyCount.key (take n (by_errorCount E)))"
  by (simp add: take_map [symmetric] by_errorCount_def distinct_map_sort_key del: take_map)

lemma set_by_errorCount [simp]: "set (by_errorCount xs) = set xs"
  by (simp add: by_errorCount_def)

lemma beyond_the_cut:
  assumes "x \<in> set xs" "x \<notin> set (take n (by_errorCount xs))" "s \<in> set (take n (by_errorCount xs))"
  shows "errorCount x \<le> errorCount s"
proof -
  let ?R = "by_errorCount xs"
  have "x \<in> set (take n ?R @ drop n ?R)" using assms(1) by simp
  then have x: "x \<in> set (drop n ?R)" using assms(2) by (simp only: set_append Un_iff) blast
  have "sorted_wrt (\<lambda>a b. errorCount b \<le> errorCount a) (take n ?R @ drop n ?R)"
    using by_errorCount_sorted [of xs] by simp
  then show ?thesis using x assms(3) by (simp only: sorted_wrt_append)
qed

lemma toLowerCase_Nil_iff: "toLowerCase s = [] \<longleftrightarrow> s = []"
  by (cases s) (auto simp: toLowerCase_def lower_unit_def)

lemma not_inherited_Nil: "\<not> inherited []"
  by (simp add: inherited_def Object_prototype_names_def js_def)

lemma mistyped_nonempty: "[] \<notin> set (mistyped ks)"
  by (auto simp: mistyped_def)


section \<open>Session scorer: the struggling keys\<close>

text \<open>
  C4, as the code has it. Whenever the scorer returns a result: \<^verbatim>\<open>strugglingKeys\<close> has
  at most five entries in descending order of \<^verbatim>\<open>errorCount\<close>; for every count, the
  entries with that count are an initial part of the buckets with that count in the order
  of \<^verbatim>\<open>Object.entries\<close>, which puts the keys that are array indices first, in numeric
  order, and the other keys after them in the order in which they were first seen; and the
  count of an entry is the number of keystrokes that are incorrect and not a Backspace and
  whose lower-cased expected character is the key. A name that the object inherits gets
  no bucket. This holds for every function \<open>lower\<close> in the place of \<^verbatim>\<open>toLowerCase\<close>,
  hence for the built-in, also on letters outside ASCII.
\<close>

theorem strugglingKeys_ranking:
  assumes "POST_analyze_session_with lower insights ks t cw tw = Inr r"
  shows "length (SessionResult.strugglingKeys r) \<le> 5
    \<and> sorted_wrt (\<lambda>a b. errorCount b \<le> errorCount a) (SessionResult.strugglingKeys r)
    \<and> (\<forall>c. \<exists>n. map KeyCount.key (filter (\<lambda>s. errorCount s = c) (SessionResult.strugglingKeys r))
                = take n (filter (\<lambda>name. count_list (buckets_with lower ks) name = c)
                            (enumeration (first_seen (buckets_with lower ks)))))
    \<and> (\<forall>s \<in> set (SessionResult.strugglingKeys r).
          errorCount s = length (filter (\<lambda>k. bucket_with lower k = KeyCount.key s) (contributing ks)))"
proof -
  from POST_strugglingKeys [OF assms] obtain obj E
    where scan: "scan_keystrokes lower None [] ks = Inr obj"
      and E: "E = map (\<lambda>(key, data). \<lparr>key = key, errorCount = errors data,
                                        avgDelay = average_delay (delays data)\<rparr>) (Object_entries obj)"
      and S: "SessionResult.strugglingKeys r = take 5 (by_errorCount E)"
    by blast
  note keys = bucket_entries(1) [OF scan E] and counts = bucket_entries(2) [OF scan E]
  have len: "length (SessionResult.strugglingKeys r) \<le> 5" by (simp add: S)
  have srt: "sorted_wrt (\<lambda>a b. errorCount b \<le> errorCount a) (SessionResult.strugglingKeys r)"
    unfolding S using by_errorCount_sorted by (rule sorted_wrt_take)
  have ties: "\<exists>n. map KeyCount.key (filter (\<lambda>s. errorCount s = c) (SessionResult.strugglingKeys r))
                = take n (filter (\<lambda>name. count_list (buckets_with lower ks) name = c)
                            (enumeration (first_seen (buckets_with lower ks))))" for c
  proof -
    obtain n where "filter (\<lambda>s. errorCount s = c) (take 5 (by_errorCount E))
        = take n (filter (\<lambda>s. errorCount s = c) (by_errorCount E))"
      using filter_take_prefix by blast
    then have "filter (\<lambda>s. errorCount s = c) (SessionResult.strugglingKeys r)
        = take n (filter (\<lambda>s. errorCount s = c) E)"
      by (simp add: S by_errorCount_stable)
    moreover have "filter (\<lambda>s. errorCount s = c) E
        = filter (\<lambda>s. count_list (buckets_with lower ks) (KeyCount.key s) = c) E"
      using counts by (intro filter_cong) auto
    moreover have "map KeyCount.key (filter (\<lambda>s. count_list (buckets_with lower ks) (KeyCount.key s) = c) E)
        = filter (\<lambda>name. count_list (buckets_with lower ks) name = c) (map KeyCount.key E)"
      by (simp add: filter_map comp_def)
    ultimately have "map KeyCount.key (filter (\<lambda>s. errorCount s = c) (SessionResult.strugglingKeys r))
        = take n (filter (\<lambda>name. count_list (buckets_with lower ks) name = c) (map KeyCount.key E))"
      by (simp flip: take_map)
    then show ?thesis unfolding keys by (rule exI)
  qed
  have cnt: "errorCount s = length (filter (\<lambda>k. bucket_with lower k = KeyCount.key s) (contributing ks))"
    if "s \<in> set (SessionResult.strugglingKeys r)" for s
  proof -
    have "s \<in> set E" using that by (auto simp: S by_errorCount_def dest: in_set_takeD)
    then have c: "errorCount s = count_list (buckets_with lower ks) (KeyCount.key s)"
      and "KeyCount.key s \<in> set (buckets_with lower ks)" using counts by auto
    then have "\<not> inherited (KeyCount.key s)" by (simp add: buckets_with_def)
    then show ?thesis using c by (simp add: count_list_buckets)
  qed
  from len srt ties cnt show ?thesis by blast
qed

theorem strugglingKeys_ranking_witness:
  "POST_analyze_session_with toLowerCase (Some (js ''ok''))
     [\<lparr>char = js ''v'', expected = js ''b'', timestamp = 1000, key = js ''v'', isCorrect = False,
       wordIndex = 0, charIndex = 0\<rparr>,
      \<lparr>char = js ''s'', expected = js ''a'', timestamp = 1300, key = js ''s'', isCorrect = False,
       wordIndex = 0, charIndex = 1\<rparr>,
      \<lparr>char = js ''n'', expected = js ''B'', timestamp = 1900, key = js ''n'', isCorrect = False,
       wordIndex = 0, charIndex = 2\<rparr>,
      \<lparr>char = js ''3'', expected = js ''2'', timestamp = 2500, key = js ''3'', isCorrect = False,
       wordIndex = 1, charIndex = 0\<rparr>,
      \<lparr>char = js ''2'', expected = js ''1'', timestamp = 3000, key = js ''2'', isCorrect = False,
       wordIndex = 1, charIndex = 1\<rparr>] 3 1 90
   = Inr \<lparr>SessionResult.wpm = 20, accuracy = 0,
           strugglingKeys = [\<lparr>key = js ''b'', errorCount = 2, avgDelay = 600\<rparr>,
                             \<lparr>key = js ''1'', errorCount = 1, avgDelay = 500\<rparr>,
                             \<lparr>key = js ''2'', errorCount = 1, avgDelay = 600\<rparr>,
                             \<lparr>key = js ''a'', errorCount = 1, avgDelay = 300\<rparr>],
           totalKeystrokes = 5, correctKeystrokes = 0, timeElapsed = 3, completedWords = 1,
           totalWords = 90, aiInsights = js ''ok''\<rparr>
   \<and> sorted_wrt (\<lambda>a b. errorCount b \<le> errorCount a)
         [\<lparr>key = js ''b'', errorCount = 2, avgDelay = 600\<rparr>,
          \<lparr>key = js ''1'', errorCount = 1, avgDelay = 500\<rparr>,
          \<lparr>key = js ''2'', errorCount = 1, avgDelay = 600\<rparr>,
          \<lparr>key = js ''a'', errorCount = 1, avgDelay = 300\<rparr>]"
  (is "?scored \<and> _")
proof -
  have h: ?scored by code_simp
  from strugglingKeys_ranking [OF h] show ?thesis using h by simp
qed


text \<open>
  The claim C4 as it is written, ties in the order first seen, fails for keys that are
  array indices: \<^verbatim>\<open>2\<close> is mistyped before \<^verbatim>\<open>1\<close>, once each, and the answer lists
  \<^verbatim>\<open>1\<close> before \<^verbatim>\<open>2\<close>.
\<close>

theorem strugglingKeys_ties_counterexample:
  "map_sum id (map KeyCount.key \<circ> SessionResult.strugglingKeys)
     (POST_analyze_session None
        [\<lparr>char = js ''3'', expected = js ''2'', timestamp = 0, key = js ''3'', isCorrect = False,
          wordIndex = 0, charIndex = 0\<rparr>,
         \<lparr>char = js ''2'', expected = js ''1'', timestamp = 500, key = js ''2'', isCorrect = False,
          wordIndex = 0, charIndex = 1\<rparr>] 1 0 1)
   = Inr [js ''1'', js ''2'']
   \<and> map_sum id (map errorCount \<circ> SessionResult.strugglingKeys)
     (POST_analyze_session None
        [\<lparr>char = js ''3'', expected = js ''2'', timestamp = 0, key = js ''3'', isCorrect = False,
          wordIndex = 0, charIndex = 0\<rparr>,
         \<lparr>char = js ''2'', expected = js ''1'', timestamp = 500, key = js ''2'', isCorrect = False,
          wordIndex = 0, charIndex = 1\<rparr>] 1 0 1)
   = Inr [1, 1]
   \<and> first_seen (map bucket_of (contributing
        [\<lparr>char = js ''3'', expected = js ''2'', timestamp = 0, key = js ''3'', isCorrect = False,
          wordIndex = 0, charIndex = 0\<rparr>,
         \<lparr>char = js ''2'', expected = js ''1'', timestamp = 500, key = js ''2'', isCorrect = False,
          wordIndex = 0, charIndex = 1\<rparr>]))
   = [js ''2'', js ''1'']"
  by code_simp


text \<open>
  C10. An incorrect keystroke that is not a Backspace and expects the empty string lands
  in a bucket whose key is the empty string, like any other key: with at most five
  buckets, \<^verbatim>\<open>strugglingKeys\<close> has an entry for it that counts all such keystrokes. The
  trailing buffer of the aggregator never holds the empty string.
\<close>

theorem empty_expected_is_bucketed:
  assumes "POST_analyze_session insights ks t cw tw = Inr r"
    and "k \<in> set ks" "\<not> isCorrect k" "Keystroke.key k \<noteq> Backspace" "expected k = []"
  shows "(length (first_seen (buckets ks)) \<le> 5 \<longrightarrow>
            (\<exists>s \<in> set (SessionResult.strugglingKeys r).
               KeyCount.key s = []
               \<and> errorCount s = length (filter (\<lambda>k. expected k = []) (contributing ks))
               \<and> 0 < errorCount s))
         \<and> (\<forall>challenges p. aggregatedPerformance challenges = Inr (Some p)
               \<longrightarrow> [] \<notin> set (recentErrors p))"
proof (intro conjI allI impI)
  fix challenges p assume "aggregatedPerformance challenges = Inr (Some p)"
  from aggregatedPerformance_Some [OF this]
  have "set (recentErrors p) \<subseteq> set (concat (map (\<lambda>c. mistyped (keystrokes c))
      (filter (\<lambda>c. result c \<noteq> None) challenges)))"
    by (metis set_drop_subset)
  then show "[] \<notin> set (recentErrors p)" using mistyped_nonempty by auto
next
  assume few: "length (first_seen (buckets ks)) \<le> 5"
  from POST_strugglingKeys [OF assms(1) [unfolded POST_analyze_session_def]] obtain obj E
    where scan: "scan_keystrokes toLowerCase None [] ks = Inr obj"
      and E: "E = map (\<lambda>(key, data). \<lparr>key = key, errorCount = errors data,
                                        avgDelay = average_delay (delays data)\<rparr>) (Object_entries obj)"
      and S: "SessionResult.strugglingKeys r = take 5 (by_errorCount E)"
    by blast
  note keys = bucket_entries(1) [OF scan E, unfolded buckets_with_toLowerCase]
    and counts = bucket_entries(2) [OF scan E, unfolded buckets_with_toLowerCase]
  have "length E = length (map KeyCount.key E)" by simp
  also have "\<dots> \<le> 5" unfolding keys using few by simp
  finally have "length (by_errorCount E) \<le> 5" by (simp add: by_errorCount_def)
  then have "take 5 (by_errorCount E) = by_errorCount E" by simp
  then have all: "set (SessionResult.strugglingKeys r) = set E" by (simp add: S)
  have c: "k \<in> set (contributing ks)" using assms(2,3,4) by (simp add: contributing_def)
  have b: "bucket_of k = []" using assms(5) by (simp add: bucket_of_def toLowerCase_def)
  have "[] \<in> set (buckets ks)"
    using c b not_inherited_Nil by (force simp: buckets_def)
  then have "[] \<in> set (map KeyCount.key E)" by (simp add: keys)
  then obtain s where s: "s \<in> set E" "KeyCount.key s = []" by auto
  have "errorCount s = length (filter (\<lambda>k. bucket_of k = []) (contributing ks))"
    using counts s not_inherited_Nil
      count_list_buckets [of "[]" toLowerCase ks, unfolded buckets_with_toLowerCase bucket_with_toLowerCase]
    by simp
  also have "\<dots> = length (filter (\<lambda>k. expected k = []) (contributing ks))"
    by (simp add: bucket_of_def toLowerCase_Nil_iff)
  finally have n: "errorCount s = length (filter (\<lambda>k. expected k = []) (contributing ks))" .
  have "k \<in> set (filter (\<lambda>k. expected k = []) (contributing ks))" using c assms(5) by simp
  then have "0 < length (filter (\<lambda>k. expected k = []) (contributing ks))"
    by (cases "filter (\<lambda>k. expected k = []) (contributing ks)") simp_all
  with s n all show "\<exists>s \<in> set (SessionResult.strugglingKeys r).
               KeyCount.key s = []
               \<and> errorCount s = length (filter (\<lambda>k. expected k = []) (contributing ks))
               \<and> 0 < errorCount s" by auto
qed

theorem empty_expected_is_bucketed_witness:
  "POST_analyze_session (Some (js ''ok''))
     [\<lparr>char = js ''x'', expected = js '''', timestamp = 1000, key = js ''x'', isCorrect = False,
       wordIndex = 0, charIndex = 3\<rparr>] 1 0 90
   = Inr \<lparr>SessionResult.wpm = 12, accuracy = 0,
           strugglingKeys = [\<lparr>key = js '''', errorCount = 1, avgDelay = 0\<rparr>],
           totalKeystrokes = 1, correctKeystrokes = 0, timeElapsed = 1, completedWords = 0,
           totalWords = 90, aiInsights = js ''ok''\<rparr>
   \<and> (\<exists>s \<in> set [\<lparr>key = js '''', errorCount = 1, avgDelay = 0::int\<rparr>].
         KeyCount.key s = [] \<and> 0 < errorCount s)"
  (is "?scored \<and> _")
proof -
  let ?k = "\<lparr>char = js ''x'', expected = js '''', timestamp = 1000, key = js ''x'',
             isCorrect = False, wordIndex = 0, charIndex = 3\<rparr>"
  have h: ?scored by code_simp
  have few: "length (first_seen (buckets [?k])) \<le> 5" by code_simp
  have nb: "js ''x'' \<noteq> Backspace" by (simp add: js_def Backspace_def)
  from empty_expected_is_bucketed [OF h, of ?k] few nb
  show ?thesis using h by (auto simp: js_def)
qed


section \<open>Performance aggregator\<close>

text \<open>
  C7. With no scored challenge the aggregator returns no profile. When it returns a
  profile, some challenge is scored, the accuracy is \<^verbatim>\<open>Math.round(sum / N)\<close> over the
  \<open>N\<close> scored results, and \<^verbatim>\<open>strugglingKeys\<close> has at most eight entries with
  distinct keys in descending order of \<^verbatim>\<open>errorCount\<close>, each count the sum of the counts
  of that key over the scored results, and no key that was cut off has a higher sum. It
  returns a profile whenever a challenge is scored and no key is a name that objects
  inherit.
\<close>

theorem aggregated_profile:
  "((\<forall>c \<in> set cs. result c = None) \<longrightarrow> aggregatedPerformance cs = Inr None)
   \<and> (\<forall>p. aggregatedPerformance cs = Inr (Some p) \<longrightarrow>
          scored cs \<noteq> []
        \<and> PerformanceData.accuracy p
            = Math_round (fl (of_int (sum_list (map SessionResult.accuracy (scored cs)))
                              / of_nat (length (scored cs))))
        \<and> length (PerformanceData.strugglingKeys p) \<le> 8
        \<and> sorted_wrt (\<lambda>a b. errorCount b \<le> errorCount a) (PerformanceData.strugglingKeys p)
        \<and> distinct (map KeyCount.key (PerformanceData.strugglingKeys p))
        \<and> (\<forall>s \<in> set (PerformanceData.strugglingKeys p).
              errorCount s = sum_list (map errorCount
                (filter (\<lambda>e. KeyCount.key e = KeyCount.key s) (merged_entries cs))))
        \<and> (\<forall>e \<in> set (merged_entries cs).
              KeyCount.key e \<in> KeyCount.key ` set (PerformanceData.strugglingKeys p)
              \<or> (\<forall>s \<in> set (PerformanceData.strugglingKeys p).
                    sum_list (map errorCount
                      (filter (\<lambda>x. KeyCount.key x = KeyCount.key e) (merged_entries cs)))
                    \<le> errorCount s)))
   \<and> (scored cs \<noteq> [] \<and> (\<forall>e \<in> set (merged_entries cs). \<not> inherited (KeyCount.key e))
        \<longrightarrow> (\<exists>p. aggregatedPerformance cs = Inr (Some p)))"
proof (intro conjI allI impI)
  assume "\<forall>c \<in> set cs. result c = None"
  then show "aggregatedPerformance cs = Inr None" by (rule aggregatedPerformance_unscored)
next
  assume a: "scored cs \<noteq> [] \<and> (\<forall>e \<in> set (merged_entries cs). \<not> inherited (KeyCount.key e))"
  then obtain st where st: "scan_challenges ([], [], 0, 0, 0) cs = Inr st"
    using scan_challenges_defined by blast
  obtain m re ta tw n where [simp]: "st = (m, re, ta, tw, n)" by (cases st)
  from scan_challenges_totals [OF st [simplified]] a have "n \<noteq> 0" by simp
  moreover have "cs \<noteq> []" using a by auto
  ultimately show "\<exists>p. aggregatedPerformance cs = Inr (Some p)"
    using st by (simp add: aggregatedPerformance_def)
next
  fix p assume p: "aggregatedPerformance cs = Inr (Some p)"
  from aggregatedPerformance_Some [OF p] obtain m E
    where m: "merge_keys [] (merged_entries cs) = Inr m"
      and E: "E = map (\<lambda>(key, errorCount). \<lparr>key = key, errorCount = errorCount\<rparr>) (Object_entries m)"
      and sc: "scored cs \<noteq> []"
      and S: "PerformanceData.strugglingKeys p = take 8 (by_errorCount E)"
      and acc: "PerformanceData.accuracy p
        = Math_round (fl (of_int (sum_list (map SessionResult.accuracy (scored cs)))
                          / of_nat (length (scored cs))))"
    by blast
  note keys = merged_histogram(1) [OF m E] and totals = merged_histogram(2) [OF m E]
  have dE: "distinct (map KeyCount.key E)" by (simp add: keys distinct_enumeration)
  show "scored cs \<noteq> []" by (rule sc)
  show "PerformanceData.accuracy p
        = Math_round (fl (of_int (sum_list (map SessionResult.accuracy (scored cs)))
                          / of_nat (length (scored cs))))" by (rule acc)
  show "length (PerformanceData.strugglingKeys p) \<le> 8" by (simp add: S)
  show "sorted_wrt (\<lambda>a b. errorCount b \<le> errorCount a) (PerformanceData.strugglingKeys p)"
    unfolding S using by_errorCount_sorted by (rule sorted_wrt_take)
  show "distinct (map KeyCount.key (PerformanceData.strugglingKeys p))"
    unfolding S using dE by (rule distinct_keys_take_by_errorCount)
  show "\<forall>s \<in> set (PerformanceData.strugglingKeys p).
              errorCount s = sum_list (map errorCount
                (filter (\<lambda>e. KeyCount.key e = KeyCount.key s) (merged_entries cs)))"
    using totals by (auto simp: S dest: in_set_takeD)
  show "\<forall>e \<in> set (merged_entries cs).
              KeyCount.key e \<in> KeyCount.key ` set (PerformanceData.strugglingKeys p)
              \<or> (\<forall>s \<in> set (PerformanceData.strugglingKeys p).
                    sum_list (map errorCount
                      (filter (\<lambda>x. KeyCount.key x = KeyCount.key e) (merged_entries cs)))
                    \<le> errorCount s)"
  proof
    fix e assume "e \<in> set (merged_entries cs)"
    then have "KeyCount.key e \<in> set (map KeyCount.key E)" by (simp add: keys)
    then obtain x where x: "x \<in> set E" "KeyCount.key x = KeyCount.key e" by auto
    show "KeyCount.key e \<in> KeyCount.key ` set (PerformanceData.strugglingKeys p)
              \<or> (\<forall>s \<in> set (PerformanceData.strugglingKeys p).
                    sum_list (map errorCount
                      (filter (\<lambda>x. KeyCount.key x = KeyCount.key e) (merged_entries cs)))
                    \<le> errorCount s)"
    proof (cases "x \<in> set (take 8 (by_errorCount E))")
      case True
      then show ?thesis using x(2) by (force simp: S)
    next
      case False
      have "errorCount x \<le> errorCount s" if "s \<in> set (take 8 (by_errorCount E))" for s
        using x(1) False that by (rule beyond_the_cut)
      moreover have "errorCount x = sum_list (map errorCount
          (filter (\<lambda>y. KeyCount.key y = KeyCount.key e) (merged_entries cs)))"
        using totals x by auto
      ultimately show ?thesis by (simp add: S)
    qed
  qed
qed

theorem aggregated_profile_witness:
  "aggregatedPerformance
     [\<lparr>id' = js ''2'', text = js ''the tea'', keystrokes =
         [\<lparr>char = js ''r'', expected = js ''t'', timestamp = 0, key = js ''r'',
           isCorrect = False, wordIndex = 0, charIndex = 0\<rparr>],
        result = Some \<lparr>SessionResult.wpm = 40, accuracy = 90,
          strugglingKeys = [\<lparr>key = js ''e'', errorCount = 2, avgDelay = 120\<rparr>,
                            \<lparr>key = js ''t'', errorCount = 1, avgDelay = 0\<rparr>],
          totalKeystrokes = 3, correctKeystrokes = 2, timeElapsed = 60, completedWords = 1,
          totalWords = 2\<rparr>,
        startTime = Some 0, endTime = Some 60000\<rparr>,
      \<lparr>id' = js ''1'', text = js ''a tea'', keystrokes = [],
        result = Some \<lparr>SessionResult.wpm = 35, accuracy = 85,
          strugglingKeys = [\<lparr>key = js ''t'', errorCount = 3, avgDelay = 100\<rparr>,
                            \<lparr>key = js ''a'', errorCount = 1, avgDelay = 90\<rparr>],
          totalKeystrokes = 20, correctKeystrokes = 17, timeElapsed = 60, completedWords = 2,
          totalWords = 2\<rparr>,
        startTime = Some 0, endTime = Some 60000\<rparr>,
      \<lparr>id' = js ''0'', text = js ''tea'', keystrokes = [], result = None,
        startTime = None, endTime = None\<rparr>]
   = Inr (Some \<lparr>strugglingKeys = [\<lparr>key = js ''t'', errorCount = 4\<rparr>,
                                   \<lparr>key = js ''e'', errorCount = 2\<rparr>,
                                   \<lparr>key = js ''a'', errorCount = 1\<rparr>],
                accuracy = 88, wpm = 38, recentErrors = [js ''t'']\<rparr>)
   \<and> (88::int) = Math_round (fl (of_int (90 + 85) / of_nat 2))"
  (is "?run \<and> _")
proof -
  have h: ?run by code_simp
  from aggregated_profile [THEN conjunct2, THEN conjunct1, rule_format, OF h]
  show ?thesis using h by simp
qed

text \<open>
  The buffer as a function of the list of challenges. \<^verbatim>\<open>recentErrors\<close> is the last 50
  of the following sequence: for the scored challenges in the order of the list, the
  non-empty expected characters of the keystrokes that are incorrect and not a Backspace,
  in the order of the keystrokes.
\<close>

lemma recentErrors_window:
  assumes "aggregatedPerformance cs = Inr (Some p)"
  shows "(let seen = concat (map
              (\<lambda>c. map expected (filter (\<lambda>k. \<not> isCorrect k \<and> expected k \<noteq> []
                                              \<and> Keystroke.key k \<noteq> Backspace) (keystrokes c)))
              (filter (\<lambda>c. result c \<noteq> None) cs))
          in recentErrors p = drop (length seen - 50) seen \<and> length (recentErrors p) \<le> 50)"
  using aggregatedPerformance_Some [OF assms] by (auto simp: Let_def mistyped_def)

text \<open>
  By the guard \<^verbatim>\<open>ks.expected &&\<close> of the scan, an incorrect keystroke that is not a
  Backspace and expects the empty string leaves nothing in the buffer.
\<close>

lemma recentErrors_skips_empty_expected:
  "map_sum id (map_option recentErrors)
     (aggregatedPerformance
        [\<lparr>id' = js ''1'', text = js ''tea'', keystrokes =
            [\<lparr>char = js ''x'', expected = js '''', timestamp = 0, key = js ''x'',
              isCorrect = False, wordIndex = 0, charIndex = 3\<rparr>],
           result = Some \<lparr>SessionResult.wpm = 12, accuracy = 0,
             strugglingKeys = [\<lparr>key = js '''', errorCount = 1, avgDelay = 0\<rparr>],
             totalKeystrokes = 1, correctKeystrokes = 0, timeElapsed = 1, completedWords = 0,
             totalWords = 1\<rparr>,
           startTime = Some 0, endTime = Some 1000\<rparr>])
   = Inr (Some [])"
  by code_simp

text \<open>
  C5 fails on the code. \<^verbatim>\<open>handleComplete\<close> puts the newest challenge first in the
  list, the scan goes through the list from its head and appends, and \<^verbatim>\<open>slice(-50)\<close>
  keeps the end of what was appended: the errors of the oldest challenges. A first
  challenge has fifty incorrect keystrokes that expect \<^verbatim>\<open>a\<close>; a second challenge,
  completed after it, has one incorrect keystroke that expects \<^verbatim>\<open>b\<close>. The 50 most
  recent errors are the \<^verbatim>\<open>b\<close> and the last 49 of the \<^verbatim>\<open>a\<close>, and the oldest \<^verbatim>\<open>a\<close>
  is the one to drop. The buffer holds the fifty \<^verbatim>\<open>a\<close>: the most recent error is the
  one that is dropped.
\<close>

theorem recentErrors_keeps_oldest:
  "map_sum id (map_option recentErrors)
     (aggregatedPerformance
        (store_challenge
           \<lparr>id' = js ''2'', text = js ''bee'', keystrokes =
               [\<lparr>char = js ''v'', expected = js ''b'', timestamp = 2500, key = js ''v'',
                 isCorrect = False, wordIndex = 0, charIndex = 0\<rparr>],
             result = Some \<lparr>SessionResult.wpm = 12, accuracy = 0,
               strugglingKeys = [\<lparr>key = js ''b'', errorCount = 1, avgDelay = 0\<rparr>],
               totalKeystrokes = 1, correctKeystrokes = 0, timeElapsed = 1, completedWords = 0,
               totalWords = 1\<rparr>,
             startTime = Some 2000, endTime = Some 3000\<rparr>
           (store_challenge
              \<lparr>id' = js ''1'', text = js ''a'', keystrokes =
                  replicate 50 \<lparr>char = js ''s'', expected = js ''a'', timestamp = 500,
                                 key = js ''s'', isCorrect = False, wordIndex = 0, charIndex = 0\<rparr>,
                result = Some \<lparr>SessionResult.wpm = 10, accuracy = 0,
                  strugglingKeys = [\<lparr>key = js ''a'', errorCount = 50, avgDelay = 0\<rparr>],
                  totalKeystrokes = 50, correctKeystrokes = 0, timeElapsed = 60,
                  completedWords = 0, totalWords = 1\<rparr>,
                startTime = Some 0, endTime = Some 1000\<rparr>
              [])))
   = Inr (Some (replicate 50 (js ''a'')))"
  by code_simp

end
